theory Spec2Isabelle
  imports Main "HOL-Library.Sublist"
begin

section \<open>The environment of the program: a file system\<close>

text \<open>
  \<^verbatim>\<open>FileUtilOperationTask.c\<close> is one C file: three visitors and helpers around the C library's
  \<^verbatim>\<open>nftw\<close>, \<^verbatim>\<open>fopen\<close>/\<^verbatim>\<open>fread\<close>/\<^verbatim>\<open>fwrite\<close>, \<^verbatim>\<open>rename\<close>, \<^verbatim>\<open>stat\<close> and zlib's \<^verbatim>\<open>gzopen\<close>/\<^verbatim>\<open>gzwrite\<close>.
  The library is not part of the repository; it is modelled here after POSIX, as far as
  the program can observe it:

  \<^item> the file system is a tree of regular files (a list of bytes, the C type \<^verbatim>\<open>char\<close>)
    and directories (a list of named entries, in the order \<^verbatim>\<open>readdir\<close> delivers them).
    There are no symbolic links and no permissions; the working directory is the root of
    the tree, so a relative and an absolute spelling of a path name the same node;
  \<^item> a path is split at \<^verbatim>\<open>/\<close>; empty components and \<^verbatim>\<open>.\<close> are skipped, except that a path
    ending in one of them must name a directory. A path of \<^verbatim>\<open>PATH_MAX\<close> bytes or more names
    nothing (\<^verbatim>\<open>ENAMETOOLONG\<close>). \<^verbatim>\<open>..\<close> is not interpreted: it is a name no entry has, so
    the model says nothing true about a path that contains it;
  \<^item> other devices are mounted at the paths listed in \<open>mounts\<close>; a file does not
    move from one device to another by \<^verbatim>\<open>rename\<close> (\<^verbatim>\<open>EXDEV\<close>);
  \<^item> the device that is written to accepts a bounded number of further bytes
    (\<open>free\<close>); the program writes below the storage directory only, so one counter
    is enough;
  \<^item> output streams are buffered as the GNU C library buffers them: \<^verbatim>\<open>fwrite\<close> collects
    bytes in the stream, the device is written when the buffer overflows and when the
    stream is closed, and only then can a write fail. Input is read from the file as it is
    at the time of the \<^verbatim>\<open>fread\<close>; the library reads ahead, which shows only when the file
    changes while it is read;
  \<^item> a gzip file is represented by its payload, the bytes that decompressing it gives;
    the sizes of compressed data are not modelled.
\<close>

type_synonym byte = char

datatype node = File "byte list" | Dir "(string \<times> node) list"

datatype error_number =
  E0 | ENOENT | ENOTDIR | EISDIR | EINVAL | ENOTEMPTY | ENOSPC | ENAMETOOLONG | EXDEV | EBUSY

definition PATH_MAX :: nat where
  "PATH_MAX = 4096"

fun split_slash :: "string \<Rightarrow> string list" where
  "split_slash [] = [[]]"
| "split_slash (c # cs) =
     (if c = CHR ''/'' then [] # split_slash cs
      else (case split_slash cs of
              [] \<Rightarrow> [[c]]
            | w # ws \<Rightarrow> (c # w) # ws))"

definition skipped :: "string \<Rightarrow> bool" where
  "skipped c = (c = [] \<or> c = ''.'')"

definition path_of :: "string \<Rightarrow> string list" where
  "path_of s = filter (\<lambda>c. \<not> skipped c) (split_slash s)"

definition wants_dir :: "string \<Rightarrow> bool" where
  "wants_dir s = skipped (last (split_slash s))"

fun lookup :: "node \<Rightarrow> string list \<Rightarrow> node option" where
  "lookup n [] = Some n"
| "lookup (File b) (c # cs) = None"
| "lookup (Dir es) (c # cs) =
     (case map_of es c of
        None \<Rightarrow> None
      | Some n \<Rightarrow> lookup n cs)"

fun upd_entry :: "string \<Rightarrow> node \<Rightarrow> (string \<times> node) list \<Rightarrow> (string \<times> node) list" where
  "upd_entry c n [] = [(c, n)]"
| "upd_entry c n ((d, m) # es) =
     (if c = d then (c, n) # es else (d, m) # upd_entry c n es)"

fun del_entry :: "string \<Rightarrow> (string \<times> node) list \<Rightarrow> (string \<times> node) list" where
  "del_entry c [] = []"
| "del_entry c ((d, m) # es) =
     (if c = d then del_entry c es else (d, m) # del_entry c es)"

text \<open>\<open>put t p n\<close> links the node \<open>n\<close> at the path \<open>p\<close>, in place of what was there
  or as a new last entry of its directory; the directory itself must exist.\<close>

fun put :: "node \<Rightarrow> string list \<Rightarrow> node \<Rightarrow> node option" where
  "put t [] n = None"
| "put (File b) (c # cs) n = None"
| "put (Dir es) [c] n = Some (Dir (upd_entry c n es))"
| "put (Dir es) (c # d # cs) n =
     (case map_of es c of
        None \<Rightarrow> None
      | Some m \<Rightarrow>
          (case put m (d # cs) n of
             None \<Rightarrow> None
           | Some m' \<Rightarrow> Some (Dir (upd_entry c m' es))))"

text \<open>\<open>remove t p\<close> unlinks the entry at \<open>p\<close>.\<close>

fun remove :: "node \<Rightarrow> string list \<Rightarrow> node option" where
  "remove t [] = None"
| "remove (File b) (c # cs) = None"
| "remove (Dir es) [c] =
     (case map_of es c of
        None \<Rightarrow> None
      | Some m \<Rightarrow> Some (Dir (del_entry c es)))"
| "remove (Dir es) (c # d # cs) =
     (case map_of es c of
        None \<Rightarrow> None
      | Some m \<Rightarrow>
          (case remove m (d # cs) of
             None \<Rightarrow> None
           | Some m' \<Rightarrow> Some (Dir (upd_entry c m' es))))"

text \<open>Why a path that does not resolve fails: a regular file stands where a directory
  is needed (\<^verbatim>\<open>ENOTDIR\<close>), or an entry is missing (\<^verbatim>\<open>ENOENT\<close>).\<close>

fun miss :: "node \<Rightarrow> string list \<Rightarrow> error_number" where
  "miss n [] = ENOENT"
| "miss (File b) (c # cs) = ENOTDIR"
| "miss (Dir es) (c # cs) =
     (case map_of es c of
        None \<Rightarrow> ENOENT
      | Some n \<Rightarrow> miss n cs)"

text \<open>Path resolution as \<^verbatim>\<open>stat\<close> and \<^verbatim>\<open>open\<close> do it: the empty path names nothing, a
  path that does not fit \<^verbatim>\<open>PATH_MAX\<close> bytes with its terminating zero is refused, and a path
  with a trailing slash or dot names a directory or nothing.\<close>

definition resolve :: "node \<Rightarrow> string \<Rightarrow> error_number + node" where
  "resolve t s =
     (if s = [] then Inl ENOENT
      else if PATH_MAX \<le> length s then Inl ENAMETOOLONG
      else (case lookup t (path_of s) of
              None \<Rightarrow> Inl (miss t (path_of s))
            | Some (File b) \<Rightarrow> if wants_dir s then Inl ENOTDIR else Inr (File b)
            | Some (Dir es) \<Rightarrow> Inr (Dir es)))"

section \<open>The state of a run\<close>

text \<open>
  The program keeps its configuration and its result in global variables; the model
  keeps them in one record with the world the process acts on: the tree, the mount points,
  the room left on the device and the two output streams. \<open>operation\<close> and
  \<open>found_file\<close> are tested against \<^verbatim>\<open>NULL\<close> and so are options; the other pointers are
  read only in the modes that assign them, and hold the empty string before. A library
  call that fails leaves its reason in \<open>errno\<close>, where \<^verbatim>\<open>perror\<close> finds it.

  \<open>trace\<close> is a history variable the C program does not have. It records, in order,
  every call of a visitor by \<^verbatim>\<open>nftw\<close>, every assignment to \<^verbatim>\<open>found_file\<close>, every call of
  \<^verbatim>\<open>copy_or_move_file\<close> and every \<^verbatim>\<open>gzopen\<close>, so that statements about how often and in
  which order these happen can be written down. No function reads it.
\<close>

datatype errline = Line string | Perror string error_number

datatype event =
  Visit string
| Found string
| Transfer string string
| Gzopen string

record state =
  fs :: node
  mounts :: "string list list"
  free :: nat
  stdout :: "string list"
  stderr :: "errline list"
  trace :: "event list"
  errno :: error_number
  enteredFileName :: string
  rootDir :: string
  storageDir :: string
  operation :: "string option"
  extension :: string
  found_file :: "string option"

definition init_state :: "node \<Rightarrow> nat \<Rightarrow> state" where
  "init_state t k =
     \<lparr>fs = t, mounts = [], free = k, stdout = [], stderr = [], trace = [], errno = E0,
      enteredFileName = [], rootDir = [], storageDir = [], operation = None,
      extension = [], found_file = None\<rparr>"

definition printf :: "state \<Rightarrow> string \<Rightarrow> state" where
  "printf st s = st\<lparr>stdout := stdout st @ [s]\<rparr>"

definition eprintf :: "state \<Rightarrow> string \<Rightarrow> state" where
  "eprintf st s = st\<lparr>stderr := stderr st @ [Line s]\<rparr>"

definition perror :: "state \<Rightarrow> string \<Rightarrow> state" where
  "perror st s = st\<lparr>stderr := stderr st @ [Perror s (errno st)]\<rparr>"

definition log_event :: "state \<Rightarrow> event \<Rightarrow> state" where
  "log_event st ev = st\<lparr>trace := trace st @ [ev]\<rparr>"

section \<open>The C library\<close>

subsection \<open>Strings\<close>

text \<open>\<^verbatim>\<open>snprintf(buf, PATH_MAX, "%s/%s", a, b)\<close>: the output is cut to fit the buffer with
  its terminating zero.\<close>

definition snprintf_path :: "string \<Rightarrow> string \<Rightarrow> string" where
  "snprintf_path a b = take (PATH_MAX - 1) (a @ ''/'' @ b)"

text \<open>\<^verbatim>\<open>strstr(haystack, needle)\<close>: the first occurrence of the needle, as the rest of the
  haystack from there on, or \<^verbatim>\<open>NULL\<close>.\<close>

fun strstr :: "string \<Rightarrow> string \<Rightarrow> string option" where
  "strstr [] needle = (if needle = [] then Some [] else None)"
| "strstr (c # cs) needle =
     (if prefix needle (c # cs) then Some (c # cs) else strstr cs needle)"

subsection \<open>Streams\<close>

text \<open>An open stream is the node it was opened on, by its path, the position in the file
  where the next byte is read or lands, and, for an output stream, the bytes written to the
  stream that have not reached the file yet.\<close>

record FILE =
  f_path :: "string list"
  f_pos :: nat
  f_buf :: "byte list"

definition contents :: "node \<Rightarrow> string list \<Rightarrow> byte list" where
  "contents t p = (case lookup t p of Some (File b) \<Rightarrow> b | _ \<Rightarrow> [])"

text \<open>\<^verbatim>\<open>fopen(path, "rb")\<close>. A directory opens too, as on Linux; reading it gives
  nothing.\<close>

definition fopen_rb :: "state \<Rightarrow> string \<Rightarrow> FILE option \<times> state" where
  "fopen_rb st s =
     (case resolve (fs st) s of
        Inl e \<Rightarrow> (None, st\<lparr>errno := e\<rparr>)
      | Inr n \<Rightarrow> (Some \<lparr>f_path = path_of s, f_pos = 0, f_buf = []\<rparr>, st))"

text \<open>\<^verbatim>\<open>fopen(path, "wb")\<close>: an existing regular file is emptied, which gives the device
  the room of its bytes back; a missing one is created in its directory.\<close>

definition fopen_wb :: "state \<Rightarrow> string \<Rightarrow> FILE option \<times> state" where
  "fopen_wb st s =
     (if s = [] then (None, st\<lparr>errno := ENOENT\<rparr>)
      else if PATH_MAX \<le> length s then (None, st\<lparr>errno := ENAMETOOLONG\<rparr>)
      else (case lookup (fs st) (path_of s) of
              Some (Dir es) \<Rightarrow> (None, st\<lparr>errno := EISDIR\<rparr>)
            | Some (File b) \<Rightarrow>
                if wants_dir s then (None, st\<lparr>errno := ENOTDIR\<rparr>)
                else (case put (fs st) (path_of s) (File []) of
                        None \<Rightarrow> (None, st\<lparr>errno := ENOENT\<rparr>)
                      | Some t \<Rightarrow>
                          (Some \<lparr>f_path = path_of s, f_pos = 0, f_buf = []\<rparr>,
                           st\<lparr>fs := t, free := free st + length b\<rparr>))
            | None \<Rightarrow>
                if wants_dir s then (None, st\<lparr>errno := EISDIR\<rparr>)
                else (case put (fs st) (path_of s) (File []) of
                        None \<Rightarrow> (None, st\<lparr>errno := miss (fs st) (path_of s)\<rparr>)
                      | Some t \<Rightarrow>
                          (Some \<lparr>f_path = path_of s, f_pos = 0, f_buf = []\<rparr>, st\<lparr>fs := t\<rparr>))))"

text \<open>\<^verbatim>\<open>fread(buffer, 1, n, stream)\<close>: up to \<open>n\<close> bytes from the position on.\<close>

definition fread :: "state \<Rightarrow> FILE \<Rightarrow> nat \<Rightarrow> byte list \<times> FILE" where
  "fread st h n =
     (let buffer = take n (drop (f_pos h) (contents (fs st) (f_path h)))
      in (buffer, h\<lparr>f_pos := f_pos h + length buffer\<rparr>))"

text \<open>Writing \<open>bs\<close> into a file at a position: over what is there, extending the
  file, after zeros if the position is beyond its end. Writing no byte changes nothing.\<close>

definition write_at :: "byte list \<Rightarrow> nat \<Rightarrow> byte list \<Rightarrow> byte list" where
  "write_at old pos bs =
     take pos old @ replicate (pos - length old) (CHR 0x00) @ bs @ drop (pos + length bs) old"

definition store :: "node \<Rightarrow> FILE \<Rightarrow> byte list \<Rightarrow> node" where
  "store t h bs =
     (if bs = [] then t
      else (case lookup t (f_path h) of
              Some (File old) \<Rightarrow>
                (case put t (f_path h) (File (write_at old (f_pos h) bs)) of
                   None \<Rightarrow> t
                 | Some t' \<Rightarrow> t')
            | _ \<Rightarrow> t))"

text \<open>Emptying the buffer of a stream into its file: as many of the pending bytes as the
  device still accepts are written, the rest stays pending and \<^verbatim>\<open>errno\<close> is \<^verbatim>\<open>ENOSPC\<close>. The
  count of the bytes written is returned.\<close>

definition flush :: "state \<Rightarrow> FILE \<Rightarrow> nat \<times> FILE \<times> state" where
  "flush st h =
     (let n = min (length (f_buf h)) (free st)
      in (n, h\<lparr>f_pos := f_pos h + n, f_buf := drop n (f_buf h)\<rparr>,
          st\<lparr>fs := store (fs st) h (take n (f_buf h)), free := free st - n,
             errno := (if n < length (f_buf h) then ENOSPC else errno st)\<rparr>))"

text \<open>
  Writing to a stream with a buffer of \<open>cap\<close> bytes, as the GNU C library does it: bytes
  that fit the buffer are kept there and the call succeeds. Otherwise the buffer is filled
  and emptied into the file, whole blocks of the rest are written at once and what remains
  is kept. The count returned is that of the bytes taken, less than the length of the
  data when a write to the device was short.
\<close>

definition buffered_write :: "nat \<Rightarrow> state \<Rightarrow> FILE \<Rightarrow> byte list \<Rightarrow> nat \<times> FILE \<times> state" where
  "buffered_write cap st h buffer =
     (let space = cap - length (f_buf h) in
      if length buffer \<le> space then (length buffer, h\<lparr>f_buf := f_buf h @ buffer\<rparr>, st)
      else
        (case flush st (h\<lparr>f_buf := f_buf h @ take space buffer\<rparr>) of
           (n1, h1, st1) \<Rightarrow>
             if f_buf h1 \<noteq> [] then (space, h1, st1)
             else
               (let rest = drop space buffer;
                    direct = length rest - length rest mod cap in
                case flush st1 (h1\<lparr>f_buf := take direct rest\<rparr>) of
                  (n2, h2, st2) \<Rightarrow>
                    if f_buf h2 \<noteq> [] then (space + n2, h2, st2)
                    else (length buffer, h2\<lparr>f_buf := drop direct rest\<rparr>, st2))))"

text \<open>\<^verbatim>\<open>fwrite(buffer, 1, n, stream)\<close> on a stream with the buffer of a regular file, and
  \<^verbatim>\<open>fclose\<close>, which empties the buffer; the program does not look at the result of
  \<^verbatim>\<open>fclose\<close>. Closing an input stream does nothing.\<close>

definition BUFSIZ :: nat where
  "BUFSIZ = 4096"

definition fwrite :: "state \<Rightarrow> FILE \<Rightarrow> byte list \<Rightarrow> nat \<times> FILE \<times> state" where
  "fwrite st h buffer = buffered_write BUFSIZ st h buffer"

definition fclose :: "state \<Rightarrow> FILE \<Rightarrow> state" where
  "fclose st h = snd (snd (flush st h))"

text \<open>\<^verbatim>\<open>gzopen(path, "wb")\<close> opens like \<^verbatim>\<open>fopen\<close>; the archive starts empty. \<^verbatim>\<open>gzwrite\<close>
  returns the count of the bytes taken, or 0 when a write to the device failed; zlib
  collects 8192 bytes before it compresses and writes. \<^verbatim>\<open>gzclose\<close> writes what is pending;
  the program does not look at its result.\<close>

definition gzopen_wb :: "state \<Rightarrow> string \<Rightarrow> FILE option \<times> state" where
  "gzopen_wb st s = fopen_wb (log_event st (Gzopen s)) s"

definition GZBUFSIZE :: nat where
  "GZBUFSIZE = 8192"

definition gzwrite :: "state \<Rightarrow> FILE \<Rightarrow> byte list \<Rightarrow> nat \<times> FILE \<times> state" where
  "gzwrite st h buffer =
     (case buffered_write GZBUFSIZE st h buffer of
        (n, h', st') \<Rightarrow> (if n = length buffer then n else 0, h', st'))"

definition gzclose :: "state \<Rightarrow> FILE \<Rightarrow> state" where
  "gzclose st h = snd (snd (flush st h))"

subsection \<open>Files and directories\<close>

text \<open>\<^verbatim>\<open>stat\<close> followed by \<^verbatim>\<open>S_ISDIR\<close>.\<close>

definition is_dir :: "node \<Rightarrow> bool" where
  "is_dir n = (case n of Dir es \<Rightarrow> True | File b \<Rightarrow> False)"

text \<open>The device of a path: the longest mount point that is a prefix of it, the root when
  there is none.\<close>

definition device_of :: "string list list \<Rightarrow> string list \<Rightarrow> string list" where
  "device_of ms p =
     foldr (\<lambda>m best. if prefix m p \<and> length best \<le> length m then m else best) ms []"

text \<open>\<^verbatim>\<open>rename(old, new)\<close> after POSIX: a mount point does not move, and an entry does not
  move to a directory on another device. Two names of the same entry are left alone and
  the call succeeds; a regular file replaces a regular file, a directory an empty
  directory; a directory does not move below itself. The bytes of a file that is replaced
  are room on the device again.\<close>

definition relink :: "node \<Rightarrow> string list \<Rightarrow> string list \<Rightarrow> node \<Rightarrow> error_number + node" where
  "relink t old new n =
     (case remove t old of
        None \<Rightarrow> Inl ENOENT
      | Some t1 \<Rightarrow>
          (case put t1 new n of
             None \<Rightarrow> Inl (miss t1 new)
           | Some t2 \<Rightarrow> Inr t2))"

definition rename_tree ::
  "node \<Rightarrow> string list list \<Rightarrow> string \<Rightarrow> string \<Rightarrow> error_number + node" where
  "rename_tree t ms old new =
     (case resolve t old of
        Inl e \<Rightarrow> Inl e
      | Inr n \<Rightarrow>
          if new = [] then Inl ENOENT
          else if PATH_MAX \<le> length new then Inl ENAMETOOLONG
          else if path_of old = [] then Inl EBUSY
          else if path_of old \<in> set ms \<or> path_of new \<in> set ms then Inl EBUSY
          else if device_of ms (butlast (path_of old)) \<noteq> device_of ms (butlast (path_of new))
            then Inl EXDEV
          else if \<not> is_dir n \<and> wants_dir new then Inl ENOTDIR
          else if path_of old = path_of new then Inr t
          else if prefix (path_of old) (path_of new)
            then Inl (if is_dir n then EINVAL else ENOTDIR)
          else (case lookup t (path_of new) of
                  Some (Dir es) \<Rightarrow>
                    if \<not> is_dir n then Inl EISDIR
                    else if es \<noteq> [] then Inl ENOTEMPTY
                    else relink t (path_of old) (path_of new) n
                | Some (File b) \<Rightarrow>
                    if is_dir n then Inl ENOTDIR
                    else relink t (path_of old) (path_of new) n
                | None \<Rightarrow> relink t (path_of old) (path_of new) n))"

definition replaced :: "node \<Rightarrow> string \<Rightarrow> string \<Rightarrow> nat" where
  "replaced t old new =
     (if path_of old = path_of new then 0 else length (contents t (path_of new)))"

definition rename :: "state \<Rightarrow> string \<Rightarrow> string \<Rightarrow> int \<times> state" where
  "rename st old new =
     (case rename_tree (fs st) (mounts st) old new of
        Inl e \<Rightarrow> (- 1, st\<lparr>errno := e\<rparr>)
      | Inr t \<Rightarrow> (0, st\<lparr>fs := t, free := free st + replaced (fs st) old new\<rparr>))"

subsection \<open>The file tree walk\<close>

text \<open>
  \<^verbatim>\<open>nftw(dirpath, fn, 20, FTW_PHYS)\<close> calls \<open>fn\<close> on the directory and then on everything
  below it, a directory before its entries, and stops at the first call that returns a
  value other than 0, which it returns. The visitors of this program use the path, the
  type flag and the offset \<^verbatim>\<open>ftwbuf->base\<close> of the base name in the path; the \<^verbatim>\<open>stat\<close>
  buffer is never read. In a tree without links and permissions the flags are \<^verbatim>\<open>FTW_F\<close>
  and \<^verbatim>\<open>FTW_D\<close>, and the walk itself does not fail once its start is resolved. The bound
  of 20 open directories is not modelled: it shows only in a tree more than 20 levels deep
  with paths of \<^verbatim>\<open>PATH_MAX\<close> bytes or more, which the library then fails to reopen.

  \<open>nftw\<close> below delivers the entries of the tree as it is when the walk starts. That
  is what the library delivers as long as the visitor adds and removes no entry below the
  root; when it does (a storage directory below the root), the library sees the change in
  every directory it has not read yet, and the walk is some other sequence of entries.
  \<open>visit_all\<close> is the walk over a given sequence, whatever directory reading produced
  it; what is proved of \<open>visit_all\<close> for all sequences holds of every walk.
\<close>

datatype typeflag = FTW_F | FTW_D | FTW_DNR | FTW_NS | FTW_SL

record entry =
  fpath :: string
  typeflag :: typeflag
  base :: nat
  level :: nat

definition with_slash :: "string \<Rightarrow> string" where
  "with_slash p = (if p \<noteq> [] \<and> last p = CHR ''/'' then p else p @ ''/'')"

fun walk :: "string \<Rightarrow> nat \<Rightarrow> nat \<Rightarrow> node \<Rightarrow> entry list" where
  "walk p b l (File bs) = [\<lparr>fpath = p, typeflag = FTW_F, base = b, level = l\<rparr>]"
| "walk p b l (Dir es) =
     \<lparr>fpath = p, typeflag = FTW_D, base = b, level = l\<rparr> #
     concat (map (\<lambda>e. walk (with_slash p @ fst e) (length (with_slash p)) (Suc l) (snd e)) es)"

text \<open>The walk starts from the path without its trailing slashes (one character is
  kept), and the base name of the start is what follows its last slash.\<close>

fun strip_slashes :: "string \<Rightarrow> string" where
  "strip_slashes p =
     (if 1 < length p \<and> last p = CHR ''/'' then strip_slashes (butlast p) else p)"

declare strip_slashes.simps [simp del]

definition root_base :: "string \<Rightarrow> nat" where
  "root_base p = length p - length (takeWhile (\<lambda>c. c \<noteq> CHR ''/'') (rev p))"

fun visit_all :: "(entry \<Rightarrow> state \<Rightarrow> int \<times> state) \<Rightarrow> entry list \<Rightarrow> state \<Rightarrow> int \<times> state" where
  "visit_all fn [] st = (0, st)"
| "visit_all fn (e # es) st =
     (case fn e (log_event st (Visit (fpath e))) of
        (r, st') \<Rightarrow> if r \<noteq> 0 then (r, st') else visit_all fn es st')"

definition entries_of :: "string \<Rightarrow> node \<Rightarrow> entry list" where
  "entries_of dirpath n =
     walk (strip_slashes dirpath) (root_base (strip_slashes dirpath)) 0 n"

definition nftw :: "state \<Rightarrow> string \<Rightarrow> (entry \<Rightarrow> state \<Rightarrow> int \<times> state) \<Rightarrow> int \<times> state" where
  "nftw st dirpath fn =
     (case resolve (fs st) dirpath of
        Inl e \<Rightarrow> (- 1, st\<lparr>errno := e\<rparr>)
      | Inr n \<Rightarrow> visit_all fn (entries_of dirpath n) st)"

section \<open>The program\<close>

text \<open>\<^verbatim>\<open>directory_exists\<close> (lines 60-69). A failing \<^verbatim>\<open>stat\<close> also sets \<^verbatim>\<open>errno\<close>; every caller
  returns after a failure without reading it.\<close>

definition directory_exists :: "state \<Rightarrow> string \<Rightarrow> bool" where
  "directory_exists st path =
     (case resolve (fs st) path of
        Inl e \<Rightarrow> False
      | Inr n \<Rightarrow> is_dir n)"

text \<open>The \<^verbatim>\<open>while\<close> loop of the copy (lines 218-236): 1024 bytes at a time, until
  \<^verbatim>\<open>fread\<close> returns nothing. The result is \<open>False\<close> when the loop is left by the
  \<^verbatim>\<open>return\<close> after a short write; the destination stream is returned as the loop leaves
  it. The loop ends: a turn either writes to the device, which accepts less afterwards, or
  leaves the files alone and moves on in the source.\<close>

function copy_loop :: "state \<Rightarrow> FILE \<Rightarrow> FILE \<Rightarrow> bool \<times> FILE \<times> state" where
  "copy_loop st src_file dest_file =
     (case fread st src_file 1024 of
        (buffer, src_file') \<Rightarrow>
          if 0 < length buffer then
            (case fwrite st dest_file buffer of
               (n, dest_file', st') \<Rightarrow>
                 if n \<noteq> length buffer then (False, dest_file', perror st' ''fwrite'')
                 else copy_loop st' src_file' dest_file')
          else (True, dest_file, st))"
  by pat_completeness auto
termination
proof (relation "measures [\<lambda>(st, src_file, dest_file). free st,
    \<lambda>(st, src_file, dest_file). length (contents (fs st) (f_path src_file)) - f_pos src_file]")
  fix st :: state and src_file dest_file src_file' dest_file' :: FILE
    and buffer :: "byte list" and n :: nat and st' :: state and x
  assume pos: "0 < length buffer" and r: "(buffer, src_file') = fread st src_file 1024"
    and w: "(n, x) = fwrite st dest_file buffer"
    and x: "(dest_file', st') = x" and n: "\<not> n \<noteq> length buffer"
  have cap: "0 < BUFSIZ"
    by (simp add: BUFSIZ_def)
  from w x n have w': "buffered_write BUFSIZ st dest_file buffer = (length buffer, dest_file', st')"
    by (simp add: fwrite_def)
  from r have src: "f_path src_file' = f_path src_file"
      "f_pos src_file' = f_pos src_file + length buffer"
      "length buffer \<le> length (contents (fs st) (f_path src_file)) - f_pos src_file"
    by (auto simp: fread_def Let_def)
  have "free st' < free st \<or> st' = st"
  proof (cases "length buffer \<le> BUFSIZ - length (f_buf dest_file)")
    case True
    with w' show ?thesis
      by (simp add: buffered_write_def Let_def)
  next
    case over: False
    define space where "space = BUFSIZ - length (f_buf dest_file)"
    define pending where "pending = f_buf dest_file @ take space buffer"
    obtain n1 h1 st1 where f1: "flush st (dest_file\<lparr>f_buf := pending\<rparr>) = (n1, h1, st1)"
      by (cases "flush st (dest_file\<lparr>f_buf := pending\<rparr>)") auto
    have sp: "space < length buffer"
      using over by (simp add: space_def)
    have full: "f_buf h1 = []"
    proof (rule ccontr)
      assume "f_buf h1 \<noteq> []"
      with w' f1 over have "length buffer = space"
        by (simp add: buffered_write_def Let_def space_def pending_def)
      with sp show False
        by simp
    qed
    define rest where "rest = drop space buffer"
    define direct where "direct = length rest - length rest mod BUFSIZ"
    obtain n2 h2 st2 where f2: "flush st1 (h1\<lparr>f_buf := take direct rest\<rparr>) = (n2, h2, st2)"
      by (cases "flush st1 (h1\<lparr>f_buf := take direct rest\<rparr>)") auto
    have le: "free st2 \<le> free st1"
      using f2 by (auto simp: flush_def Let_def)
    have st': "st' = st2"
      using w' f1 f2 over full
      by (auto simp: buffered_write_def Let_def space_def pending_def rest_def direct_def
          split: if_splits)
    have "n1 = length pending" "free st1 = free st - n1"
      using f1 full by (auto simp: flush_def Let_def min_def split: if_splits)
    moreover have "n1 \<le> free st"
      using f1 by (auto simp: flush_def Let_def)
    moreover have "pending \<noteq> []"
      using sp cap pos by (cases "f_buf dest_file") (auto simp: pending_def space_def)
    ultimately have "free st' < free st"
      using le st' by (cases pending) simp_all
    then show ?thesis ..
  qed
  moreover have "length (contents (fs st) (f_path src_file)) - f_pos src_file'
      < length (contents (fs st) (f_path src_file)) - f_pos src_file"
    using src pos by arith
  ultimately show "((st', src_file', dest_file'), (st, src_file, dest_file))
      \<in> measures [\<lambda>(st, src_file, dest_file). free st,
          \<lambda>(st, src_file, dest_file). length (contents (fs st) (f_path src_file)) - f_pos src_file]"
    using src by auto
qed simp

declare copy_loop.simps [simp del]

text \<open>\<^verbatim>\<open>copy_or_move_file\<close> (lines 198-251). Both ways out of the loop close the two
  streams.\<close>

definition copy_or_move_file :: "state \<Rightarrow> string \<Rightarrow> string \<Rightarrow> state" where
  "copy_or_move_file st0 src_path dest_path =
     (let st = log_event st0 (Transfer src_path dest_path) in
      if operation st = Some ''-cp'' then
        (case fopen_rb st src_path of
           (None, st1) \<Rightarrow> perror st1 ''fopen source file''
         | (Some src_file, st1) \<Rightarrow>
             (case fopen_wb st1 dest_path of
                (None, st2) \<Rightarrow> perror st2 ''fopen destination file''
              | (Some dest_file, st2) \<Rightarrow>
                  (case copy_loop st2 src_file dest_file of
                     (False, dest_file', st3) \<Rightarrow> fclose st3 dest_file'
                   | (True, dest_file', st3) \<Rightarrow>
                       printf (printf (fclose st3 dest_file') ''Search Successful'')
                         ''File copied to the storageDir'')))
      else if operation st = Some ''-mv'' then
        (case rename st src_path dest_path of
           (r, st1) \<Rightarrow>
             if r \<noteq> 0 then perror st1 ''rename''
             else printf (printf st1 ''Search Successful'')
                    ''File moved to the storageDir'')
      else st)"

text \<open>\<^verbatim>\<open>search_and_process\<close> (lines 72-109), the visitor of the two locate modes.\<close>

definition search_and_process :: "entry \<Rightarrow> state \<Rightarrow> int \<times> state" where
  "search_and_process e st0 =
     (if typeflag e = FTW_F \<and> drop (base e) (fpath e) = enteredFileName st0 then
        (let st = log_event (st0\<lparr>found_file := Some (fpath e)\<rparr>) (Found (fpath e)) in
         if operation st \<noteq> None then
           (let dest_path = snprintf_path (storageDir st) (enteredFileName st) in
            if \<not> directory_exists st (storageDir st)
            then (1, printf st ''Search Successful: Invalid storageDir'')
            else (0, copy_or_move_file st (the (found_file st)) dest_path))
         else (0, printf st (the (found_file st))))
      else (0, st0))"

text \<open>The \<^verbatim>\<open>while\<close> loop of \<^verbatim>\<open>add_file_to_tar\<close> (lines 185-192).\<close>

function tar_loop :: "state \<Rightarrow> FILE \<Rightarrow> FILE \<Rightarrow> bool \<times> FILE \<times> state" where
  "tar_loop st file tarfile =
     (case fread st file 1024 of
        (buffer, file') \<Rightarrow>
          if 0 < length buffer then
            (case gzwrite st tarfile buffer of
               (n, tarfile', st') \<Rightarrow>
                 if n \<noteq> length buffer
                 then (False, tarfile', eprintf st' ''Error writing to tar file'')
                 else tar_loop st' file' tarfile')
          else (True, tarfile, st))"
  by pat_completeness auto
termination
proof (relation "measures [\<lambda>(st, src, tarfile). free st,
    \<lambda>(st, src, tarfile). length (contents (fs st) (f_path src)) - f_pos src]")
  fix st :: state and src tarfile src' tarfile' :: FILE
    and buffer :: "byte list" and n :: nat and st' :: state and x
  assume pos: "0 < length buffer" and r: "(buffer, src') = fread st src 1024"
    and w: "(n, x) = gzwrite st tarfile buffer"
    and x: "(tarfile', st') = x" and n: "\<not> n \<noteq> length buffer"
  have cap: "0 < GZBUFSIZE"
    by (simp add: GZBUFSIZE_def)
  from w x n pos have w': "buffered_write GZBUFSIZE st tarfile buffer = (length buffer, tarfile', st')"
    by (cases "buffered_write GZBUFSIZE st tarfile buffer") (auto simp: gzwrite_def split: if_splits)
  from r have src: "f_path src' = f_path src"
      "f_pos src' = f_pos src + length buffer"
      "length buffer \<le> length (contents (fs st) (f_path src)) - f_pos src"
    by (auto simp: fread_def Let_def)
  have "free st' < free st \<or> st' = st"
  proof (cases "length buffer \<le> GZBUFSIZE - length (f_buf tarfile)")
    case True
    with w' show ?thesis
      by (simp add: buffered_write_def Let_def)
  next
    case over: False
    define space where "space = GZBUFSIZE - length (f_buf tarfile)"
    define pending where "pending = f_buf tarfile @ take space buffer"
    obtain n1 h1 st1 where f1: "flush st (tarfile\<lparr>f_buf := pending\<rparr>) = (n1, h1, st1)"
      by (cases "flush st (tarfile\<lparr>f_buf := pending\<rparr>)") auto
    have sp: "space < length buffer"
      using over by (simp add: space_def)
    have full: "f_buf h1 = []"
    proof (rule ccontr)
      assume "f_buf h1 \<noteq> []"
      with w' f1 over have "length buffer = space"
        by (simp add: buffered_write_def Let_def space_def pending_def)
      with sp show False
        by simp
    qed
    define rest where "rest = drop space buffer"
    define direct where "direct = length rest - length rest mod GZBUFSIZE"
    obtain n2 h2 st2 where f2: "flush st1 (h1\<lparr>f_buf := take direct rest\<rparr>) = (n2, h2, st2)"
      by (cases "flush st1 (h1\<lparr>f_buf := take direct rest\<rparr>)") auto
    have le: "free st2 \<le> free st1"
      using f2 by (auto simp: flush_def Let_def)
    have st': "st' = st2"
      using w' f1 f2 over full
      by (auto simp: buffered_write_def Let_def space_def pending_def rest_def direct_def
          split: if_splits)
    have "n1 = length pending" "free st1 = free st - n1"
      using f1 full by (auto simp: flush_def Let_def min_def split: if_splits)
    moreover have "n1 \<le> free st"
      using f1 by (auto simp: flush_def Let_def)
    moreover have "pending \<noteq> []"
      using sp cap pos by (cases "f_buf tarfile") (auto simp: pending_def space_def)
    ultimately have "free st' < free st"
      using le st' by (cases pending) simp_all
    then show ?thesis ..
  qed
  moreover have "length (contents (fs st) (f_path src)) - f_pos src'
      < length (contents (fs st) (f_path src)) - f_pos src"
    using src pos by arith
  ultimately show "((st', src', tarfile'), (st, src, tarfile))
      \<in> measures [\<lambda>(st, src, tarfile). free st,
          \<lambda>(st, src, tarfile). length (contents (fs st) (f_path src)) - f_pos src]"
    using src by auto
qed simp

declare tar_loop.simps [simp del]

text \<open>\<^verbatim>\<open>add_file_to_tar\<close> (lines 158-195). Both branches of the test of \<^verbatim>\<open>errno\<close> return.
  The archive stream is the caller's, who closes it: it is returned as the function leaves
  it.\<close>

definition add_file_to_tar :: "state \<Rightarrow> string \<Rightarrow> string \<Rightarrow> FILE \<Rightarrow> FILE \<times> state" where
  "add_file_to_tar st dir_path filename tarfile =
     (let filepath = snprintf_path dir_path filename in
      case fopen_rb st filepath of
        (None, st1) \<Rightarrow> if errno st1 = EISDIR then (tarfile, st1) else (tarfile, st1)
      | (Some file, st1) \<Rightarrow> snd (tar_loop st1 file tarfile))"

text \<open>\<^verbatim>\<open>search_and_create_tar\<close> (lines 112-155), the visitor of the archive mode.\<close>

definition search_and_create_tar :: "entry \<Rightarrow> state \<Rightarrow> int \<times> state" where
  "search_and_create_tar e st =
     (if typeflag e = FTW_F \<and> strstr (drop (base e) (fpath e)) (extension st) \<noteq> None then
        (let st1 = printf st (fpath e);
             tarfilename = snprintf_path (storageDir st1) ''a1.tar'' in
         case gzopen_wb st1 tarfilename of
           (None, st2) \<Rightarrow> (1, perror st2 ''gzopen'')
         | (Some tarfile, st2) \<Rightarrow>
             (case add_file_to_tar st2 (fpath e) (drop (base e) (fpath e)) tarfile of
                (tarfile', st3) \<Rightarrow> (0, gzclose st3 tarfile')))
      else (0, st))"

text \<open>\<^verbatim>\<open>main\<close> (lines 255-348): the mode is chosen by the number of arguments, the program
  name counted. The result is the exit status and the final state.\<close>

definition locate :: "state \<Rightarrow> int \<times> state" where
  "locate st =
     (case nftw st (rootDir st) search_and_process of
        (r, st1) \<Rightarrow>
          if r = - 1 then (1, perror st1 ''nftw'')
          else (0, if found_file st1 = None then printf st1 ''Search Unsuccessful'' else st1))"

fun main :: "string list \<Rightarrow> state \<Rightarrow> int \<times> state" where
  "main [prog, a1, a2] st0 =
     (let st = st0\<lparr>rootDir := a1, enteredFileName := a2\<rparr> in
      if \<not> directory_exists st (rootDir st) then (1, eprintf st ''Invalid rootDir'')
      else locate st)"
| "main [prog, a1, a2, a3, a4] st0 =
     (let st = st0\<lparr>rootDir := a1, storageDir := a2, operation := Some a3,
                   enteredFileName := a4\<rparr> in
      if \<not> directory_exists st (rootDir st) then (1, eprintf st ''Invalid rootDir'')
      else if operation st \<noteq> Some ''-cp'' \<and> operation st \<noteq> Some ''-mv''
        then (1, eprintf st ''Invalid operation'')
      else locate st)"
| "main [prog, a1, a2, a3] st0 =
     (let st = st0\<lparr>rootDir := a1, storageDir := a2, extension := a3\<rparr> in
      if \<not> directory_exists st (rootDir st) \<or> \<not> directory_exists st (storageDir st) then
        (let st1 = (if \<not> directory_exists st (rootDir st)
                    then eprintf st ''Invalid rootDir'' else st);
             st2 = (if \<not> directory_exists st1 (storageDir st1)
                    then printf st1 ''Search Successful: Invalid storageDir'' else st1)
         in (1, st2))
      else (case nftw st (rootDir st) search_and_create_tar of
              (r, st1) \<Rightarrow> if r = - 1 then (1, perror st1 ''nftw'') else (0, st1)))"
| "main argv st = (1, eprintf st ''Invalid number of arguments'')"

section \<open>Reading the history, and trees to run the program on\<close>

text \<open>The calls of a visitor, the assignments to \<^verbatim>\<open>found_file\<close>, the calls of
  \<^verbatim>\<open>copy_or_move_file\<close> and the calls of \<^verbatim>\<open>gzopen\<close> that a history records.\<close>

fun visits :: "event list \<Rightarrow> string list" where
  "visits [] = []"
| "visits (Visit p # evs) = p # visits evs"
| "visits (ev # evs) = visits evs"

fun founds :: "event list \<Rightarrow> string list" where
  "founds [] = []"
| "founds (Found p # evs) = p # founds evs"
| "founds (ev # evs) = founds evs"

fun transfers :: "event list \<Rightarrow> (string \<times> string) list" where
  "transfers [] = []"
| "transfers (Transfer p q # evs) = (p, q) # transfers evs"
| "transfers (ev # evs) = transfers evs"

fun gzopens :: "event list \<Rightarrow> string list" where
  "gzopens [] = []"
| "gzopens (Gzopen p # evs) = p # gzopens evs"
| "gzopens (ev # evs) = gzopens evs"

text \<open>The tree of the specification's example: a root \<^verbatim>\<open>r\<close> with \<^verbatim>\<open>a.log\<close>, \<^verbatim>\<open>b.log\<close> and
  \<^verbatim>\<open>c.txt\<close>, and an empty storage directory \<^verbatim>\<open>s\<close> beside it.\<close>

definition logs_dir :: node where
  "logs_dir = Dir [(''a.log'', File ''AA''), (''b.log'', File ''B''), (''c.txt'', File ''C'')]"

definition logs_tree :: node where
  "logs_tree = Dir [(''r'', logs_dir), (''s'', Dir [])]"

section \<open>Notions for the statements and the proofs\<close>

text \<open>Whether a path names a directory of a tree, and the bytes of the regular file it
  names, if it names one.\<close>

definition dir_at :: "node \<Rightarrow> string list \<Rightarrow> bool" where
  "dir_at t p = (case lookup t p of Some (Dir es) \<Rightarrow> True | _ \<Rightarrow> False)"

definition file_at :: "node \<Rightarrow> string list \<Rightarrow> byte list option" where
  "file_at t p = (case lookup t p of Some (File b) \<Rightarrow> Some b | _ \<Rightarrow> None)"

text \<open>A library call leaves the program's variables, the standard output and the history
  alone: it changes at most the tree, the room on the device, the standard error and
  \<^verbatim>\<open>errno\<close>.\<close>

definition touches :: "state \<Rightarrow> state \<Rightarrow> bool" where
  "touches st st' = (\<exists>t k e n. st' = st\<lparr>fs := t, free := k, stderr := e, errno := n\<rparr>)"



definition match_ext :: "state \<Rightarrow> entry \<Rightarrow> bool" where
  "match_ext st e =
     (typeflag e = FTW_F \<and> strstr (drop (base e) (fpath e)) (extension st) \<noteq> None)"

text \<open>An entry whose path leaves room in the path buffer for a slash and a byte, and names a
  regular file or the archive.\<close>

definition regular :: "state \<Rightarrow> entry \<Rightarrow> bool" where
  "regular st e =
     (length (fpath e) + 2 \<le> PATH_MAX
      \<and> (file_at (fs st) (path_of (fpath e)) \<noteq> None
         \<or> path_of (fpath e) = path_of (snprintf_path (storageDir st) ''a1.tar'')))"



section \<open>Facts about the library and the visitors\<close>

subsection \<open>Looking up, putting and removing in a tree\<close>

lemma map_of_upd_entry: "map_of (upd_entry c n es) d = (if d = c then Some n else map_of es d)"
  by (induction es) auto

lemma map_of_del_entry: "map_of (del_entry c es) d = (if d = c then None else map_of es d)"
  by (induction es) auto

lemma lookup_append:
  "lookup t (p @ q) = (case lookup t p of None \<Rightarrow> None | Some n \<Rightarrow> lookup n q)"
  by (induction t p rule: lookup.induct) (auto split: option.splits)

lemma lookup_put_same: "put t p n = Some t' \<Longrightarrow> lookup t' p = Some n"
  by (induction t p n arbitrary: t' rule: put.induct)
     (auto simp: map_of_upd_entry split: option.splits)

lemma lookup_put_other:
  "put t p n = Some t' \<Longrightarrow> \<not> prefix p q \<Longrightarrow> \<not> prefix q p \<Longrightarrow> lookup t' q = lookup t q"
proof (induction t p n arbitrary: t' q rule: put.induct)
  case (3 es c n)
  then show ?case by (cases q) (auto simp: map_of_upd_entry)
next
  case (4 es c d cs n)
  then show ?case by (cases q) (auto simp: map_of_upd_entry split: option.splits)
qed simp_all

lemma lookup_remove_same: "remove t p = Some t' \<Longrightarrow> lookup t' p = None"
  by (induction t p arbitrary: t' rule: remove.induct)
     (auto simp: map_of_upd_entry map_of_del_entry split: option.splits)

lemma lookup_remove_other:
  "remove t p = Some t' \<Longrightarrow> \<not> prefix p q \<Longrightarrow> \<not> prefix q p \<Longrightarrow> lookup t' q = lookup t q"
proof (induction t p arbitrary: t' q rule: remove.induct)
  case (3 es c)
  then show ?case by (cases q) (auto simp: map_of_del_entry split: option.splits)
next
  case (4 es c d cs)
  then show ?case by (cases q) (auto simp: map_of_upd_entry split: option.splits)
qed simp_all


lemma remove_succeeds: "lookup t p = Some m \<Longrightarrow> p \<noteq> [] \<Longrightarrow> \<exists>t'. remove t p = Some t'"
  by (induction t p rule: remove.induct) (auto split: option.splits)

lemma lookup_below_file:
  "lookup t p = Some (File b) \<Longrightarrow> q \<noteq> [] \<Longrightarrow> lookup t (p @ q) = None"
  by (cases q) (simp_all add: lookup_append)


lemma put_Dir_Cons:
  "rest \<noteq> [] \<Longrightarrow> put (Dir es) (c # rest) n =
     (case map_of es c of None \<Rightarrow> None
      | Some m \<Rightarrow> (case put m rest n of None \<Rightarrow> None
                   | Some m' \<Rightarrow> Some (Dir (upd_entry c m' es))))"
  by (cases rest) (simp_all cong: option.case_cong)

lemma remove_Dir_Cons:
  "rest \<noteq> [] \<Longrightarrow> remove (Dir es) (c # rest) =
     (case map_of es c of None \<Rightarrow> None
      | Some m \<Rightarrow> (case remove m rest of None \<Rightarrow> None
                   | Some m' \<Rightarrow> Some (Dir (upd_entry c m' es))))"
  by (cases rest) (simp_all cong: option.case_cong)

lemma put_through:
  "put t (p @ q) n = Some t' \<Longrightarrow> q \<noteq> [] \<Longrightarrow> dir_at t p \<and> dir_at t' p"
proof (induction p arbitrary: t t')
  case Nil
  then show ?case
    by (cases t; cases q; cases "tl q") (auto simp: dir_at_def split: option.splits)
next
  case (Cons c p)
  then obtain es where t: "t = Dir es" by (cases t) auto
  from Cons.prems have ne: "p @ q \<noteq> []" by simp
  from Cons.prems obtain m m' where m: "map_of es c = Some m" "put m (p @ q) n = Some m'"
      "t' = Dir (upd_entry c m' es)"
    unfolding t append_Cons put_Dir_Cons [OF ne] by (auto split: option.splits)
  from Cons.IH [OF m(2) Cons.prems(2)] m(1,3) t show ?case
    by (simp add: dir_at_def map_of_upd_entry)
qed

lemma remove_through:
  "remove t (p @ q) = Some t' \<Longrightarrow> q \<noteq> [] \<Longrightarrow> dir_at t p \<and> dir_at t' p"
proof (induction p arbitrary: t t')
  case Nil
  then show ?case
    by (cases t; cases q; cases "tl q") (auto simp: dir_at_def split: option.splits)
next
  case (Cons c p)
  then obtain es where t: "t = Dir es" by (cases t) auto
  from Cons.prems have ne: "p @ q \<noteq> []" by simp
  from Cons.prems obtain m m' where m: "map_of es c = Some m" "remove m (p @ q) = Some m'"
      "t' = Dir (upd_entry c m' es)"
    unfolding t append_Cons remove_Dir_Cons [OF ne] by (auto split: option.splits)
  from Cons.IH [OF m(2) Cons.prems(2)] m(1,3) t show ?case
    by (simp add: dir_at_def map_of_upd_entry)
qed

lemma proper_prefixE:
  assumes "prefix p q" "p \<noteq> q"
  obtains r where "q = p @ r" "r \<noteq> []"
  using assms by (auto simp: prefix_def)


lemma put_file_file_at:
  assumes "put t p (File b) = Some t'" "\<not> dir_at t p" "q \<noteq> p"
  shows "file_at t' q = file_at t q"
proof -
  have same: "lookup t' p = Some (File b)" using assms(1) by (rule lookup_put_same)
  consider "prefix p q" "p \<noteq> q" | "prefix q p" "q \<noteq> p" | "\<not> prefix p q" "\<not> prefix q p"
    using assms(3) by blast
  then show ?thesis
  proof cases
    case 1
    then obtain r where r: "q = p @ r" "r \<noteq> []" by (rule proper_prefixE)
    from assms(2) r(2) have "lookup t (p @ r) = None"
      by (cases r; cases "lookup t p") (auto simp: lookup_append dir_at_def split: node.splits)
    moreover from same r(2) have "lookup t' (p @ r) = None" by (rule lookup_below_file)
    ultimately show ?thesis using r by (simp add: file_at_def)
  next
    case 2
    then obtain r where r: "p = q @ r" "r \<noteq> []" by (rule proper_prefixE)
    from put_through [of t q r "File b" t'] assms(1) r have "dir_at t q \<and> dir_at t' q" by simp
    then show ?thesis by (auto simp: dir_at_def file_at_def split: option.splits node.splits)
  next
    case 3
    with lookup_put_other [OF assms(1)] show ?thesis by (simp add: file_at_def)
  qed
qed


lemma remove_file_file_at:
  assumes "remove t p = Some t'" "lookup t p = Some (File b)" "q \<noteq> p"
  shows "file_at t' q = file_at t q"
proof -
  have same: "lookup t' p = None" using assms(1) by (rule lookup_remove_same)
  consider "prefix p q" "p \<noteq> q" | "prefix q p" "q \<noteq> p" | "\<not> prefix p q" "\<not> prefix q p"
    using assms(3) by blast
  then show ?thesis
  proof cases
    case 1
    then obtain r where r: "q = p @ r" "r \<noteq> []" by (rule proper_prefixE)
    from same assms(2) r(2) show ?thesis unfolding r(1)
      by (cases r) (auto simp: lookup_append file_at_def)
  next
    case 2
    then obtain r where r: "p = q @ r" "r \<noteq> []" by (rule proper_prefixE)
    from remove_through [of t q r t'] assms(1) r have "dir_at t q \<and> dir_at t' q" by simp
    then show ?thesis by (auto simp: dir_at_def file_at_def split: option.splits node.splits)
  next
    case 3
    with lookup_remove_other [OF assms(1)] show ?thesis by (simp add: file_at_def)
  qed
qed

subsection \<open>What the library calls change\<close>





lemma fopen_wb_None:
  "fst (fopen_wb st s) = None \<Longrightarrow> fopen_wb st s = (None, st\<lparr>errno := errno (snd (fopen_wb st s))\<rparr>)"
  by (simp add: fopen_wb_def split: option.splits node.splits if_splits)

lemma fopen_wb_Some:
  assumes "fopen_wb st s = (Some h, st')"
  shows "h = \<lparr>f_path = path_of s, f_pos = 0, f_buf = []\<rparr>"
    and "st' = st\<lparr>fs := fs st', free := free st'\<rparr>"
    and "put (fs st) (path_of s) (File []) = Some (fs st')"
    and "\<not> dir_at (fs st) (path_of s)" and "free st \<le> free st'"
    and "s \<noteq> []" and "length s < PATH_MAX"
  using assms
  by (auto simp: fopen_wb_def dir_at_def split: option.splits node.splits if_splits)

lemma fopen_wb_cases:
  obtains e where "fopen_wb st s = (None, st\<lparr>errno := e\<rparr>)"
  | t k where "fopen_wb st s = (Some \<lparr>f_path = path_of s, f_pos = 0, f_buf = []\<rparr>, st\<lparr>fs := t, free := k\<rparr>)"
      "put (fs st) (path_of s) (File []) = Some t" "\<not> dir_at (fs st) (path_of s)" "free st \<le> k"
      "s \<noteq> []" "length s < PATH_MAX"
proof (cases "fst (fopen_wb st s)")
  case None
  from that(1) [OF fopen_wb_None [OF this]] show ?thesis .
next
  case (Some h)
  then have eq: "fopen_wb st s = (Some h, snd (fopen_wb st s))"
    by (cases "fopen_wb st s") simp
  from fopen_wb_Some [OF eq] eq that(2) [where t = "fs (snd (fopen_wb st s))" and k = "free (snd (fopen_wb st s))"]
  show ?thesis by metis
qed


lemma touchesI: "st' = st\<lparr>fs := t, free := k, stderr := e, errno := n\<rparr> \<Longrightarrow> touches st st'"
  unfolding touches_def by blast

lemma touches_refl: "touches st st"
  by (rule touchesI [where t = "fs st" and k = "free st" and e = "stderr st" and n = "errno st"]) simp

lemma touches_trans: "touches a b \<Longrightarrow> touches b c \<Longrightarrow> touches a c"
  unfolding touches_def by (elim exE) (simp, blast)

lemma touches_fields:
  assumes "touches st st'"
  shows "trace st' = trace st" "stdout st' = stdout st" "enteredFileName st' = enteredFileName st"
    "rootDir st' = rootDir st" "storageDir st' = storageDir st" "operation st' = operation st"
    "extension st' = extension st" "found_file st' = found_file st" "mounts st' = mounts st"
  using assms unfolding touches_def by auto

lemma touches_errno: "touches st (st\<lparr>errno := e\<rparr>)"
  by (rule touchesI [where t = "fs st" and k = "free st" and e = "stderr st" and n = e]) simp

lemma touches_fs_free: "touches st (st\<lparr>fs := t, free := k\<rparr>)"
  by (rule touchesI [where t = t and k = k and e = "stderr st" and n = "errno st"]) simp

lemma touches_perror: "touches st (perror st s)"
  by (rule touchesI [where t = "fs st" and k = "free st" and e = "stderr st @ [Perror s (errno st)]" and n = "errno st"])
     (simp add: perror_def)

lemma touches_eprintf: "touches st (eprintf st s)"
  by (rule touchesI [where t = "fs st" and k = "free st" and e = "stderr st @ [Line s]" and n = "errno st"])
     (simp add: eprintf_def)

lemma touches_flush: "touches st (snd (snd (flush st h)))"
  by (rule touchesI [where t = "fs (snd (snd (flush st h)))"
        and k = "free (snd (snd (flush st h)))" and e = "stderr st"
        and n = "errno (snd (snd (flush st h)))"])
     (simp add: flush_def Let_def)

lemma flush_f_path: "f_path (fst (snd (flush st h))) = f_path h"
  by (simp add: flush_def Let_def)



lemma buffered_write_cases:
  obtains (keep) "buffered_write cap st h buffer = (length buffer, h\<lparr>f_buf := f_buf h @ buffer\<rparr>, st)"
  | (short1) h0 where "f_path h0 = f_path h"
      "buffered_write cap st h buffer = (cap - length (f_buf h), snd (flush st h0))"
      "cap - length (f_buf h) < length buffer"
  | (short2) h0 h1 m where "f_path h0 = f_path h" "f_path h1 = f_path h"
      "buffered_write cap st h buffer = (m, snd (flush (snd (snd (flush st h0))) h1))"
      "m < length buffer"
  | (full) h0 h1 r where "f_path h0 = f_path h" "f_path h1 = f_path h"
      "buffered_write cap st h buffer =
         (length buffer, (fst (snd (flush (snd (snd (flush st h0))) h1)))\<lparr>f_buf := r\<rparr>,
          snd (snd (flush (snd (snd (flush st h0))) h1)))"
proof (cases "length buffer \<le> cap - length (f_buf h)")
  case True
  then show ?thesis by (intro keep) (simp add: buffered_write_def Let_def)
next
  case over: False
  define space where "space = cap - length (f_buf h)"
  define h0 where "h0 = h\<lparr>f_buf := f_buf h @ take space buffer\<rparr>"
  obtain n1 h1 st1 where f1: "flush st h0 = (n1, h1, st1)"
    by (cases "flush st h0") auto
  have p1: "f_path h1 = f_path h" using flush_f_path [of st h0] f1 by (simp add: h0_def)
  show ?thesis
  proof (cases "f_buf h1 = []")
    case False
    have "buffered_write cap st h buffer = (cap - length (f_buf h), snd (flush st h0))"
      using over f1 False by (simp add: buffered_write_def Let_def space_def h0_def)
    moreover have "f_path h0 = f_path h" by (simp add: h0_def)
    ultimately show ?thesis using over by (intro short1 [of h0]) simp_all
  next
    case True
    define rest where "rest = drop space buffer"
    define direct where "direct = length rest - length rest mod cap"
    define h1' where "h1' = h1\<lparr>f_buf := take direct rest\<rparr>"
    obtain n2 h2 st2 where f2: "flush st1 h1' = (n2, h2, st2)"
      by (cases "flush st1 h1'") auto
    have p0: "f_path h0 = f_path h" by (simp add: h0_def)
    have p1': "f_path h1' = f_path h" using p1 by (simp add: h1'_def)
    show ?thesis
    proof (cases "f_buf h2 = []")
      case False
      have "buffered_write cap st h buffer = (space + n2, snd (flush (snd (snd (flush st h0))) h1'))"
        using over f1 f2 True False
        by (simp add: buffered_write_def Let_def space_def h0_def rest_def direct_def h1'_def)
      moreover have "n2 < length (take direct rest)"
        using f2 False by (auto simp: flush_def Let_def h1'_def min_def split: if_splits)
      then have "space + n2 < length buffer"
        using over by (auto simp: rest_def space_def)
      ultimately show ?thesis using p0 p1' by (intro short2 [of h0 h1']) simp_all
    next
      case e2: True
      have "buffered_write cap st h buffer =
         (length buffer, (fst (snd (flush (snd (snd (flush st h0))) h1')))\<lparr>f_buf := drop direct rest\<rparr>,
          snd (snd (flush (snd (snd (flush st h0))) h1')))"
        using over f1 f2 True e2
        by (simp add: buffered_write_def Let_def space_def h0_def rest_def direct_def h1'_def)
      then show ?thesis using p0 p1' by (intro full [of h0 h1']) simp_all
    qed
  qed
qed

lemma touches_buffered_write: "touches st (snd (snd (buffered_write cap st h buffer)))"
  by (rule buffered_write_cases [of cap st h buffer])
     (auto simp: touches_refl touches_flush intro: touches_trans [OF touches_flush touches_flush])

lemma buffered_write_f_path: "f_path (fst (snd (buffered_write cap st h buffer))) = f_path h"
  by (rule buffered_write_cases [of cap st h buffer]) (auto simp: flush_f_path)



lemma touches_fwrite: "touches st (snd (snd (fwrite st h buf)))"
  by (simp add: fwrite_def touches_buffered_write)

lemma touches_gzwrite: "touches st (snd (snd (gzwrite st h buf)))"
  using touches_buffered_write [of st GZBUFSIZE h buf]
  by (cases "buffered_write GZBUFSIZE st h buf") (auto simp: gzwrite_def)

lemma touches_fclose: "touches st (fclose st h)"
  by (simp add: fclose_def touches_flush)

lemma touches_gzclose: "touches st (gzclose st h)"
  by (simp add: gzclose_def touches_flush)

lemma touches_fopen_rb: "touches st (snd (fopen_rb st s))"
  by (cases "resolve (fs st) s") (simp_all add: fopen_rb_def touches_errno touches_refl)

lemma touches_fopen_wb: "touches st (snd (fopen_wb st s))"
  by (rule fopen_wb_cases [of st s]) (simp_all add: touches_errno touches_fs_free)

lemma touches_rename: "touches st (snd (rename st a b))"
  by (cases "rename_tree (fs st) (mounts st) a b")
     (simp_all add: rename_def touches_errno touches_fs_free)

lemma touches_copy_loop: "touches st (snd (snd (copy_loop st a b)))"
proof (induction st a b rule: copy_loop.induct)
  case (1 st a b)
  obtain buffer a' where r: "fread st a 1024 = (buffer, a')" by (cases "fread st a 1024")
  obtain n b' st' where w: "fwrite st b buffer = (n, b', st')"
    by (cases "fwrite st b buffer") auto
  from touches_fwrite [of st b buffer] w have t1: "touches st st'" by simp
  show ?case
  proof (cases "0 < length buffer")
    case False
    with r show ?thesis by (subst copy_loop.simps) (simp add: touches_refl)
  next
    case True
    show ?thesis
    proof (cases "n = length buffer")
      case False
      with True r w touches_trans [OF t1 touches_perror [of st' "''fwrite''"]] show ?thesis
        by (subst copy_loop.simps) simp
    next
      case n: True
      from "1.IH" [OF r [symmetric] True w [symmetric] refl] n
      have "touches st' (snd (snd (copy_loop st' a' b')))" by simp
      with True n r w touches_trans [OF t1] show ?thesis
        by (subst copy_loop.simps) simp
    qed
  qed
qed

lemma touches_tar_loop: "touches st (snd (snd (tar_loop st a b)))"
proof (induction st a b rule: tar_loop.induct)
  case (1 st a b)
  obtain buffer a' where r: "fread st a 1024 = (buffer, a')" by (cases "fread st a 1024")
  obtain n b' st' where w: "gzwrite st b buffer = (n, b', st')"
    by (cases "gzwrite st b buffer") auto
  from touches_gzwrite [of st b buffer] w have t1: "touches st st'" by simp
  show ?case
  proof (cases "0 < length buffer")
    case False
    with r show ?thesis by (subst tar_loop.simps) (simp add: touches_refl)
  next
    case True
    show ?thesis
    proof (cases "n = length buffer")
      case False
      with True r w touches_trans [OF t1 touches_eprintf [of st' "''Error writing to tar file''"]]
      show ?thesis
        by (subst tar_loop.simps) simp
    next
      case n: True
      from "1.IH" [OF r [symmetric] True w [symmetric] refl] n
      have "touches st' (snd (snd (tar_loop st' a' b')))" by simp
      with True n r w touches_trans [OF t1] show ?thesis
        by (subst tar_loop.simps) simp
    qed
  qed
qed

lemma touches_add_file_to_tar: "touches st (snd (add_file_to_tar st d f t))"
proof -
  obtain h st1 where eq: "fopen_rb st (snprintf_path d f) = (h, st1)"
    by (cases "fopen_rb st (snprintf_path d f)")
  with touches_fopen_rb [of st "snprintf_path d f"] have t1: "touches st st1" by simp
  show ?thesis
  proof (cases h)
    case None
    with eq t1 show ?thesis by (simp add: add_file_to_tar_def Let_def)
  next
    case (Some src)
    with eq touches_trans [OF t1 touches_tar_loop [of st1 src t]] show ?thesis
      by (simp add: add_file_to_tar_def Let_def)
  qed
qed

subsection \<open>The copy loop\<close>


lemma take_chunk: "take pos bs @ take k (drop pos bs) = take (pos + k) bs"
  by (simp add: take_add)






subsection \<open>Renaming a regular file\<close>





lemma copy_or_move_file_frame:
  "trace (copy_or_move_file st s d) = trace st @ [Transfer s d]
   \<and> enteredFileName (copy_or_move_file st s d) = enteredFileName st
   \<and> rootDir (copy_or_move_file st s d) = rootDir st
   \<and> storageDir (copy_or_move_file st s d) = storageDir st
   \<and> operation (copy_or_move_file st s d) = operation st
   \<and> extension (copy_or_move_file st s d) = extension st
   \<and> found_file (copy_or_move_file st s d) = found_file st
   \<and> mounts (copy_or_move_file st s d) = mounts st"
proof -
  let ?st = "log_event st (Transfer s d)"
  have "\<exists>st1. touches ?st st1 \<and>
      (copy_or_move_file st s d = st1 \<or> (\<exists>x y. copy_or_move_file st s d = printf (printf st1 x) y))"
  proof (cases "operation ?st = Some ''-cp''")
    case cp: True
    obtain h1 st1 where o1: "fopen_rb ?st s = (h1, st1)" by (cases "fopen_rb ?st s")
    with touches_fopen_rb [of ?st s] have t1: "touches ?st st1" by simp
    show ?thesis
    proof (cases h1)
      case None
      with cp o1 touches_trans [OF t1 touches_perror] show ?thesis
        by (auto simp: copy_or_move_file_def Let_def)
    next
      case (Some src_file)
      obtain h2 st2 where o2: "fopen_wb st1 d = (h2, st2)" by (cases "fopen_wb st1 d")
      with touches_fopen_wb [of st1 d] t1 have t2: "touches ?st st2"
        by (auto intro: touches_trans)
      show ?thesis
      proof (cases h2)
        case None
        with cp o1 Some o2 touches_trans [OF t2 touches_perror] show ?thesis
          by (auto simp: copy_or_move_file_def Let_def)
      next
        case (Some dest_file)
        obtain ok dest_file' st3' where c: "copy_loop st2 src_file dest_file = (ok, dest_file', st3')"
          by (cases "copy_loop st2 src_file dest_file") auto
        define st3 where "st3 = fclose st3' dest_file'"
        from c touches_copy_loop [of st2 src_file dest_file] t2 have "touches ?st st3'"
          by (auto intro: touches_trans)
        with touches_fclose [of st3' dest_file'] have "touches ?st st3"
          by (auto simp: st3_def intro: touches_trans)
        with cp o1 \<open>h1 = Some src_file\<close> o2 Some c show ?thesis
          by (cases ok) (auto simp: copy_or_move_file_def Let_def st3_def)
      qed
    qed
  next
    case ncp: False
    show ?thesis
    proof (cases "operation ?st = Some ''-mv''")
      case True
      obtain r st1 where rn: "rename ?st s d = (r, st1)" by (cases "rename ?st s d")
      with touches_rename [of ?st s d] have t1: "touches ?st st1" by simp
      with ncp True rn touches_trans [OF t1 touches_perror] show ?thesis
        by (cases "r = 0") (auto simp: copy_or_move_file_def Let_def)
    next
      case False
      with ncp touches_refl [of ?st] show ?thesis
        by (auto simp: copy_or_move_file_def Let_def)
    qed
  qed
  then obtain st1 where t: "touches ?st st1"
    and r: "copy_or_move_file st s d = st1 \<or> (\<exists>x y. copy_or_move_file st s d = printf (printf st1 x) y)"
    by blast
  from touches_fields [OF t] r show ?thesis
    by (auto simp: printf_def log_event_def)
qed

subsection \<open>Directories stay directories\<close>





subsection \<open>\<^verbatim>\<open>strstr\<close> finds substrings\<close>

lemma strstr_Some_iff: "(strstr h n \<noteq> None) = (\<exists>u v. h = u @ n @ v)"
proof (induction h)
  case Nil
  then show ?case by auto
next
  case (Cons c cs)
  show ?case
  proof (cases "prefix n (c # cs)")
    case True
    then obtain v where "c # cs = n @ v" by (auto simp: prefix_def)
    then have "c # cs = [] @ n @ v" by simp
    with True show ?thesis by (metis strstr.simps(2) option.distinct(1))
  next
    case False
    have "(\<exists>u v. c # cs = u @ n @ v) = (\<exists>u v. cs = u @ n @ v)"
    proof
      assume "\<exists>u v. c # cs = u @ n @ v"
      then obtain u v where uv: "c # cs = u @ n @ v" by blast
      show "\<exists>u v. cs = u @ n @ v"
      proof (cases u)
        case Nil
        with uv have "prefix n (c # cs)" by (simp add: prefix_def)
        with False show ?thesis by simp
      next
        case (Cons a u')
        with uv have "cs = u' @ n @ v" by simp
        then show ?thesis by blast
      qed
    next
      assume "\<exists>u v. cs = u @ n @ v"
      then obtain u v where "cs = u @ n @ v" by blast
      then have "c # cs = (c # u) @ n @ v" by simp
      then show "\<exists>u v. c # cs = u @ n @ v" by blast
    qed
    with False Cons.IH show ?thesis by simp
  qed
qed

lemma strstr_None_iff: "(strstr h n = None) = (\<not> (\<exists>u v. h = u @ n @ v))"
  using strstr_Some_iff [of h n] by blast

subsection \<open>A walk in which nothing matches\<close>

lemma visit_all_search_and_process_no_match:
  "\<forall>e\<in>set es. \<not> (typeflag e = FTW_F \<and> drop (base e) (fpath e) = enteredFileName st) \<Longrightarrow>
   visit_all search_and_process es st = (0, st\<lparr>trace := trace st @ map (\<lambda>e. Visit (fpath e)) es\<rparr>)"
proof (induction es arbitrary: st)
  case Nil
  then show ?case by simp
next
  case (Cons e es)
  let ?st = "log_event st (Visit (fpath e))"
  from Cons.prems have 1: "search_and_process e ?st = (0, ?st)"
    by (auto simp: search_and_process_def log_event_def)
  from Cons.prems have "\<forall>e\<in>set es. \<not> (typeflag e = FTW_F \<and> drop (base e) (fpath e) = enteredFileName ?st)"
    by (simp add: log_event_def)
  from Cons.IH [OF this] 1 show ?case
    by (simp add: log_event_def)
qed

lemma visit_all_search_and_create_tar_no_match:
  "\<forall>e\<in>set es. \<not> (typeflag e = FTW_F \<and> strstr (drop (base e) (fpath e)) (extension st) \<noteq> None) \<Longrightarrow>
   visit_all search_and_create_tar es st = (0, st\<lparr>trace := trace st @ map (\<lambda>e. Visit (fpath e)) es\<rparr>)"
proof (induction es arbitrary: st)
  case Nil
  then show ?case by simp
next
  case (Cons e es)
  let ?st = "log_event st (Visit (fpath e))"
  from Cons.prems have 1: "search_and_create_tar e ?st = (0, ?st)"
    by (auto simp: search_and_create_tar_def log_event_def)
  from Cons.prems have "\<forall>e\<in>set es. \<not> (typeflag e = FTW_F \<and> strstr (drop (base e) (fpath e)) (extension ?st) \<noteq> None)"
    by (simp add: log_event_def)
  from Cons.IH [OF this] 1 show ?case
    by (simp add: log_event_def)
qed

lemma visits_append: "visits (a @ b) = visits a @ visits b"
  by (induction a rule: visits.induct) simp_all



lemma gzopens_append: "gzopens (a @ b) = gzopens a @ gzopens b"
  by (induction a rule: gzopens.induct) simp_all

lemma visits_map_Visit: "visits (map (\<lambda>e. Visit (fpath e)) es) = map fpath es"
  by (induction es) simp_all

lemma founds_map_Visit: "founds (map (\<lambda>e. Visit (fpath e)) es) = []"
  by (induction es) simp_all

lemma transfers_map_Visit: "transfers (map (\<lambda>e. Visit (fpath e)) es) = []"
  by (induction es) simp_all

lemma gzopens_map_Visit: "gzopens (map (\<lambda>e. Visit (fpath e)) es) = []"
  by (induction es) simp_all

lemma resolve_logs_root: "resolve (fs (init_state logs_tree k)) ''r'' = Inr logs_dir"
  by (simp add: init_state_def logs_tree_def resolve_def path_of_def skipped_def logs_dir_def
      PATH_MAX_def)

lemma entries_of_logs_root:
  "entries_of ''r'' logs_dir =
     [\<lparr>fpath = ''r'', typeflag = FTW_D, base = 0, level = 0\<rparr>,
      \<lparr>fpath = ''r/a.log'', typeflag = FTW_F, base = 2, level = 1\<rparr>,
      \<lparr>fpath = ''r/b.log'', typeflag = FTW_F, base = 2, level = 1\<rparr>,
      \<lparr>fpath = ''r/c.txt'', typeflag = FTW_F, base = 2, level = 1\<rparr>]"
  by code_simp

lemma visit_all_append:
  "visit_all fn (a @ b) st =
     (case visit_all fn a st of (r, st') \<Rightarrow> if r \<noteq> 0 then (r, st') else visit_all fn b st')"
  by (induction a arbitrary: st) (auto split: prod.splits)



lemma directory_exists_fs: "fs st' = fs st \<Longrightarrow> directory_exists st' p = directory_exists st p"
  by (simp add: directory_exists_def)

lemma visit_all_stops_at_invalid_storage:
  assumes pre: "\<forall>x\<in>set pre. \<not> (typeflag x = FTW_F \<and> drop (base x) (fpath x) = enteredFileName st)"
    and hit: "typeflag e = FTW_F" "drop (base e) (fpath e) = enteredFileName st"
    and op: "operation st \<noteq> None"
    and nostore: "\<not> directory_exists st (storageDir st)"
  shows "visit_all search_and_process (pre @ e # rest) st =
     (1, printf (st\<lparr>found_file := Some (fpath e),
                    trace := trace st @ map (\<lambda>x. Visit (fpath x)) pre
                               @ [Visit (fpath e), Found (fpath e)]\<rparr>)
           ''Search Successful: Invalid storageDir'')"
proof -
  let ?st1 = "st\<lparr>trace := trace st @ map (\<lambda>x. Visit (fpath x)) pre\<rparr>"
  let ?st2 = "log_event ?st1 (Visit (fpath e))"
  from visit_all_search_and_process_no_match [OF pre]
  have 1: "visit_all search_and_process pre st = (0, ?st1)" .
  from nostore have "\<not> directory_exists (log_event (?st2\<lparr>found_file := Some (fpath e)\<rparr>) (Found (fpath e))) (storageDir st)"
    by (simp add: directory_exists_def log_event_def)
  with hit op have 2: "search_and_process e ?st2 =
     (1, printf (log_event (?st2\<lparr>found_file := Some (fpath e)\<rparr>) (Found (fpath e)))
           ''Search Successful: Invalid storageDir'')"
    by (simp add: search_and_process_def Let_def log_event_def)
  show ?thesis
    by (simp add: visit_all_append 1 2) (simp add: log_event_def printf_def)
qed

lemma main_transfer_invalid_storage:
  assumes root: "resolve (fs st) root = Inr n" "is_dir n"
    and op: "op = ''-cp'' \<or> op = ''-mv''"
    and nostore: "\<not> directory_exists st storage"
    and split: "entries_of root n = pre @ e # rest"
    and pre: "\<forall>x\<in>set pre. \<not> (typeflag x = FTW_F \<and> drop (base x) (fpath x) = name)"
    and hit: "typeflag e = FTW_F" "drop (base e) (fpath e) = name"
  shows "main [prog, root, storage, op, name] st =
     (0, printf (st\<lparr>rootDir := root, storageDir := storage, operation := Some op,
                    enteredFileName := name, found_file := Some (fpath e),
                    trace := trace st @ map (\<lambda>x. Visit (fpath x)) pre
                               @ [Visit (fpath e), Found (fpath e)]\<rparr>)
           ''Search Successful: Invalid storageDir'')"
proof -
  let ?st = "st\<lparr>rootDir := root, storageDir := storage, operation := Some op,
                  enteredFileName := name\<rparr>"
  have d: "directory_exists ?st root" "\<not> directory_exists ?st (storageDir ?st)"
    using root nostore by (simp_all add: directory_exists_def)
  have v: "visit_all search_and_process (pre @ e # rest) ?st =
     (1, printf (?st\<lparr>found_file := Some (fpath e),
                    trace := trace ?st @ map (\<lambda>x. Visit (fpath x)) pre
                               @ [Visit (fpath e), Found (fpath e)]\<rparr>)
           ''Search Successful: Invalid storageDir'')"
    by (rule visit_all_stops_at_invalid_storage [OF _ _ _ _ d(2)]) (use pre hit in simp_all)
  from op d root split v show ?thesis
    by (auto simp: locate_def nftw_def printf_def)
qed

lemma search_and_process_trace_grows:
  "\<exists>tl. trace (snd (search_and_process e st)) = trace st @ tl"
proof (cases "typeflag e = FTW_F \<and> drop (base e) (fpath e) = enteredFileName st")
  case False
  then show ?thesis by (auto simp: search_and_process_def)
next
  case True
  define st1 where "st1 = log_event (st\<lparr>found_file := Some (fpath e)\<rparr>) (Found (fpath e))"
  define dest where "dest = snprintf_path (storageDir st1) (enteredFileName st1)"
  have t1: "trace st1 = trace st @ [Found (fpath e)]" "found_file st1 = Some (fpath e)"
    by (simp_all add: st1_def log_event_def)
  from True have eq: "search_and_process e st =
      (if operation st1 \<noteq> None then
         if \<not> directory_exists st1 (storageDir st1)
         then (1, printf st1 ''Search Successful: Invalid storageDir'')
         else (0, copy_or_move_file st1 (fpath e) dest)
       else (0, printf st1 (fpath e)))"
    by (simp add: search_and_process_def Let_def st1_def dest_def log_event_def)
  from copy_or_move_file_frame [of st1 "fpath e" dest]
  have "trace (copy_or_move_file st1 (fpath e) dest)
        = trace st @ [Found (fpath e), Transfer (fpath e) dest]"
    by (simp add: t1)
  with t1 show ?thesis unfolding eq
    by (simp add: printf_def)
qed

lemma visit_all_search_and_process_trace_grows:
  "\<exists>tl. trace (snd (visit_all search_and_process es st)) = trace st @ map (\<lambda>x. Visit (fpath x)) (take 1 es) @ tl"
proof (induction es arbitrary: st)
  case Nil
  then show ?case by simp
next
  case (Cons e es)
  let ?st = "log_event st (Visit (fpath e))"
  obtain r st' where s: "search_and_process e ?st = (r, st')" by (cases "search_and_process e ?st")
  from search_and_process_trace_grows [of e ?st] s obtain tl
    where tl: "trace st' = trace st @ Visit (fpath e) # tl" by (auto simp: log_event_def)
  show ?case
  proof (cases "r = 0")
    case False
    with s tl show ?thesis by simp
  next
    case True
    from Cons.IH [of st'] obtain tl' where "trace (snd (visit_all search_and_process es st'))
        = trace st' @ map (\<lambda>x. Visit (fpath x)) (take 1 es) @ tl'" by blast
    with True s tl show ?thesis by simp
  qed
qed

lemma entries_of_dir:
  "is_dir n \<Longrightarrow> \<exists>b rest. entries_of root n =
      \<lparr>fpath = strip_slashes root, typeflag = FTW_D, base = b, level = 0\<rparr> # rest"
  by (cases n) (simp_all add: entries_of_def is_dir_def)

subsection \<open>Opening a path below a regular file\<close>

lemma split_slash_nonempty: "split_slash s \<noteq> []"
  by (induction s) (auto split: list.splits)

lemma split_slash_append: "split_slash (a @ CHR ''/'' # b) = split_slash a @ split_slash b"
proof (induction a)
  case Nil
  then show ?case by simp
next
  case (Cons c a)
  then show ?case
    using split_slash_nonempty [of a] by (cases "split_slash a") auto
qed

lemma path_of_append: "path_of (a @ CHR ''/'' # b) = path_of a @ path_of b"
  by (simp add: path_of_def split_slash_append)

lemma wants_dir_append: "wants_dir (a @ CHR ''/'' # b) = wants_dir b"
  by (simp add: wants_dir_def split_slash_append split_slash_nonempty)

lemma path_of_empty_wants_dir: "path_of s = [] \<Longrightarrow> wants_dir s"
proof -
  assume "path_of s = []"
  then have "\<forall>c\<in>set (split_slash s). skipped c"
    by (simp add: path_of_def filter_empty_conv)
  moreover have "last (split_slash s) \<in> set (split_slash s)"
    by (rule last_in_set) (rule split_slash_nonempty)
  ultimately show ?thesis by (simp add: wants_dir_def)
qed

lemma miss_below_file:
  "lookup t p = Some (File b) \<Longrightarrow> q \<noteq> [] \<Longrightarrow> miss t (p @ q) = ENOTDIR"
  by (induction t p rule: lookup.induct) (auto split: option.splits elim: miss.elims simp: neq_Nil_conv)

lemma resolve_below_file:
  assumes "lookup t (path_of d) = Some (File b)" and len: "length (d @ CHR ''/'' # f) < PATH_MAX"
  shows "resolve t (d @ CHR ''/'' # f) = Inl ENOTDIR"
proof (cases "path_of f = []")
  case True
  with assms path_of_empty_wants_dir [OF True] show ?thesis
    by (simp add: resolve_def path_of_append wants_dir_append)
next
  case False
  with len lookup_below_file [OF assms(1) False] miss_below_file [OF assms(1) False] show ?thesis
    by (simp add: resolve_def path_of_append)
qed

lemma snprintf_path_short:
  "length d + 2 \<le> PATH_MAX \<Longrightarrow>
   snprintf_path d f = d @ CHR ''/'' # take (PATH_MAX - 2 - length d) f"
proof -
  assume "length d + 2 \<le> PATH_MAX"
  then obtain k where k: "PATH_MAX - 1 - length d = Suc k" "PATH_MAX - 2 - length d = k"
    by (cases "PATH_MAX - 1 - length d") auto
  then show ?thesis by (simp add: snprintf_path_def)
qed

lemma add_file_to_tar_reads_nothing:
  assumes "lookup (fs st) (path_of d) = Some (File b)" "length d + 2 \<le> PATH_MAX"
  shows "add_file_to_tar st d f t = (t, st\<lparr>errno := ENOTDIR\<rparr>)"
proof -
  let ?rest = "take (PATH_MAX - 2 - length d) f"
  have "length (d @ CHR ''/'' # ?rest) < PATH_MAX"
    using assms(2) by simp
  from resolve_below_file [OF assms(1) this] snprintf_path_short [OF assms(2), of f]
  show ?thesis
    by (simp add: add_file_to_tar_def Let_def fopen_rb_def)
qed

lemma flush_empty: "f_buf h = [] \<Longrightarrow> flush st h = (0, h, st)"
  by (simp add: flush_def Let_def store_def)

lemma gzclose_empty: "f_buf h = [] \<Longrightarrow> gzclose st h = st"
  by (simp add: gzclose_def flush_empty)

lemma search_and_create_tar_step:
  assumes m: "match_ext st e" and reg: "regular st e"
    and ok: "fst (search_and_create_tar e st) = 0"
  shows "\<exists>t k. snd (search_and_create_tar e st) =
            st\<lparr>stdout := stdout st @ [fpath e],
               trace := trace st @ [Gzopen (snprintf_path (storageDir st) ''a1.tar'')],
               fs := t, free := k, errno := ENOTDIR\<rparr>
          \<and> put (fs st) (path_of (snprintf_path (storageDir st) ''a1.tar'')) (File []) = Some t
          \<and> \<not> dir_at (fs st) (path_of (snprintf_path (storageDir st) ''a1.tar''))"
proof -
  define tar where "tar = snprintf_path (storageDir st) ''a1.tar''"
  define st1 where "st1 = log_event (printf st (fpath e)) (Gzopen tar)"
  have s1: "fs st1 = fs st" by (simp add: st1_def log_event_def printf_def)
  have eq: "search_and_create_tar e st =
      (case fopen_wb st1 tar of
         (None, st2) \<Rightarrow> (1, perror st2 ''gzopen'')
       | (Some tarfile, st2) \<Rightarrow>
           (case add_file_to_tar st2 (fpath e) (drop (base e) (fpath e)) tarfile of
              (tarfile', st3) \<Rightarrow> (0, gzclose st3 tarfile')))"
    using m by (simp add: search_and_create_tar_def match_ext_def Let_def gzopen_wb_def
        st1_def tar_def printf_def)
  show ?thesis
  proof (rule fopen_wb_cases [of st1 tar])
    fix er assume "fopen_wb st1 tar = (None, st1\<lparr>errno := er\<rparr>)"
    with eq ok show ?thesis by simp
  next
    fix t k
    assume o: "fopen_wb st1 tar = (Some \<lparr>f_path = path_of tar, f_pos = 0, f_buf = []\<rparr>, st1\<lparr>fs := t, free := k\<rparr>)"
      and p: "put (fs st1) (path_of tar) (File []) = Some t"
      and nd: "\<not> dir_at (fs st1) (path_of tar)"
    from reg have len: "length (fpath e) + 2 \<le> PATH_MAX"
      and alt: "file_at (fs st) (path_of (fpath e)) \<noteq> None \<or> path_of (fpath e) = path_of tar"
      by (auto simp: regular_def tar_def)
    have "\<exists>b. lookup t (path_of (fpath e)) = Some (File b)"
    proof (cases "path_of (fpath e) = path_of tar")
      case True
      with lookup_put_same [OF p] show ?thesis by simp
    next
      case False
      with alt obtain bs where bs: "file_at (fs st) (path_of (fpath e)) = Some bs"
        by auto
      from put_file_file_at [OF p nd False] bs s1 show ?thesis
        by (auto simp: file_at_def split: option.splits node.splits)
    qed
    then obtain b where "lookup (fs (st1\<lparr>fs := t, free := k\<rparr>)) (path_of (fpath e)) = Some (File b)"
      by auto
    from add_file_to_tar_reads_nothing [OF this len] eq o
    have "snd (search_and_create_tar e st) = st1\<lparr>fs := t, free := k, errno := ENOTDIR\<rparr>"
      by (simp add: gzclose_empty)
    with p nd s1
    have "snd (search_and_create_tar e st) =
            st\<lparr>stdout := stdout st @ [fpath e],
               trace := trace st @ [Gzopen (snprintf_path (storageDir st) ''a1.tar'')],
               fs := t, free := k, errno := ENOTDIR\<rparr>
          \<and> put (fs st) (path_of (snprintf_path (storageDir st) ''a1.tar'')) (File []) = Some t
          \<and> \<not> dir_at (fs st) (path_of (snprintf_path (storageDir st) ''a1.tar''))"
      by (simp add: st1_def tar_def log_event_def printf_def)
    then show ?thesis
      by blast
  qed
qed

lemma visit_all_archive:
  assumes "\<forall>e\<in>set es. typeflag e = FTW_F \<longrightarrow> regular st e"
    and "fst (visit_all search_and_create_tar es st) = 0"
  shows "file_at (fs (snd (visit_all search_and_create_tar es st)))
            (path_of (snprintf_path (storageDir st) ''a1.tar''))
         = (if \<exists>e\<in>set es. match_ext st e then Some []
            else file_at (fs st) (path_of (snprintf_path (storageDir st) ''a1.tar'')))"
  using assms
proof (induction es arbitrary: st)
  case Nil
  then show ?case by simp
next
  case (Cons e es)
  let ?tar = "path_of (snprintf_path (storageDir st) ''a1.tar'')"
  let ?st = "log_event st (Visit (fpath e))"
  have s0: "fs ?st = fs st" "extension ?st = extension st" "storageDir ?st = storageDir st"
    by (simp_all add: log_event_def)
  have m0: "match_ext ?st = match_ext st" "regular ?st = regular st"
    by (rule ext, simp add: match_ext_def regular_def s0)+
  show ?case
  proof (cases "match_ext st e")
    case False
    then have step: "search_and_create_tar e ?st = (0, ?st)"
      by (auto simp: search_and_create_tar_def match_ext_def s0)
    from Cons.prems step have "\<forall>e\<in>set es. typeflag e = FTW_F \<longrightarrow> regular ?st e"
        "fst (visit_all search_and_create_tar es ?st) = 0"
      by (simp_all add: m0)
    from Cons.IH [OF this] step False show ?thesis by (simp add: m0 s0)
  next
    case True
    obtain r st' where step: "search_and_create_tar e ?st = (r, st')"
      by (cases "search_and_create_tar e ?st")
    with Cons.prems(2) have r: "r = 0" by (auto split: if_splits)
    from True Cons.prems(1) have "match_ext ?st e" "regular ?st e"
      by (simp_all add: m0 match_ext_def)
    from search_and_create_tar_step [OF this] step r obtain t k
      where st': "st' = ?st\<lparr>stdout := stdout ?st @ [fpath e],
               trace := trace ?st @ [Gzopen (snprintf_path (storageDir ?st) ''a1.tar'')],
               fs := t, free := k, errno := ENOTDIR\<rparr>"
        and p: "put (fs st) ?tar (File []) = Some t" and nd: "\<not> dir_at (fs st) ?tar"
      by (auto simp: s0)
    have s1: "fs st' = t" "extension st' = extension st" "storageDir st' = storageDir st"
      by (simp_all add: st' log_event_def)
    have m1: "match_ext st' = match_ext st"
      by (rule ext) (simp add: match_ext_def s1)
    have reg1: "regular st' x" if "regular st x" for x
    proof (cases "path_of (fpath x) = ?tar")
      case True
      with that show ?thesis
        by (simp add: regular_def s1)
    next
      case False
      from put_file_file_at [OF p nd False] that False show ?thesis
        by (simp add: regular_def s1)
    qed
    from Cons.prems step r reg1 have "\<forall>e\<in>set es. typeflag e = FTW_F \<longrightarrow> regular st' e"
        "fst (visit_all search_and_create_tar es st') = 0"
      by auto
    from Cons.IH [OF this] lookup_put_same [OF p] True step r show ?thesis
      by (simp add: m1 s1 file_at_def)
  qed
qed

subsection \<open>The example trees\<close>

lemma search_and_create_tar_match_stdout:
  assumes "typeflag e = FTW_F" "strstr (drop (base e) (fpath e)) (extension st) \<noteq> None"
  shows "stdout (snd (search_and_create_tar e st)) = stdout st @ [fpath e]"
proof -
  define tar where "tar = snprintf_path (storageDir st) ''a1.tar''"
  define st1 where "st1 = log_event (printf st (fpath e)) (Gzopen tar)"
  have s1: "stdout st1 = stdout st @ [fpath e]"
    by (simp add: st1_def log_event_def printf_def)
  obtain h st2 where o: "fopen_wb st1 tar = (h, st2)"
    by (cases "fopen_wb st1 tar")
  from touches_fopen_wb [of st1 tar] o have t2: "touches st1 st2"
    by simp
  have eq: "search_and_create_tar e st =
      (case h of
         None \<Rightarrow> (1, perror st2 ''gzopen'')
       | Some tarfile \<Rightarrow>
           (case add_file_to_tar st2 (fpath e) (drop (base e) (fpath e)) tarfile of
              (tarfile', st3) \<Rightarrow> (0, gzclose st3 tarfile')))"
    using assms o
    by (simp add: search_and_create_tar_def Let_def gzopen_wb_def st1_def tar_def printf_def)
  show ?thesis
  proof (cases h)
    case None
    with eq touches_fields(2) [OF touches_trans [OF t2 touches_perror [of st2 "''gzopen''"]]] s1
    show ?thesis
      by simp
  next
    case (Some tarfile)
    obtain tarfile' st3
      where a: "add_file_to_tar st2 (fpath e) (drop (base e) (fpath e)) tarfile = (tarfile', st3)"
      by (cases "add_file_to_tar st2 (fpath e) (drop (base e) (fpath e)) tarfile")
    from touches_add_file_to_tar [of st2 "fpath e" "drop (base e) (fpath e)" tarfile] a
    have "touches st2 st3"
      by simp
    with t2 touches_gzclose [of st3 tarfile'] have "touches st1 (gzclose st3 tarfile')"
      by (blast intro: touches_trans)
    from touches_fields(2) [OF this] eq Some a s1 show ?thesis
      by simp
  qed
qed

lemma entries_of_logs_root_split:
  "entries_of ''r'' logs_dir =
     [\<lparr>fpath = ''r'', typeflag = FTW_D, base = 0, level = 0\<rparr>]
      @ \<lparr>fpath = ''r/a.log'', typeflag = FTW_F, base = 2, level = 1\<rparr>
      # [\<lparr>fpath = ''r/b.log'', typeflag = FTW_F, base = 2, level = 1\<rparr>,
         \<lparr>fpath = ''r/c.txt'', typeflag = FTW_F, base = 2, level = 1\<rparr>]"
  by (simp add: entries_of_logs_root)


section \<open>The claims\<close>

subsection \<open>C1: what the archive holds after a run\<close>

text \<open>
  C1 says that after a run in archive mode the archive holds the bytes of the last matched
  file. The visitor calls \<^verbatim>\<open>add_file_to_tar(fpath, fpath + ftwbuf->base, tarfile)\<close> (line
  149): the first argument, documented as the directory of the file (lines 49 and 162), is
  the path of the file itself. \<^verbatim>\<open>add_file_to_tar\<close> joins the two with a slash and opens
  \<^verbatim>\<open>fpath/basename\<close>, a path below a regular file, which no \<^verbatim>\<open>fopen\<close> resolves; it returns
  without a word, and nothing is ever written.

  C1, as the code has it: take any sequence of entries in which every entry flagged as a
  regular file has a path that leaves two bytes of the path buffer free and names a regular
  file of the tree or the archive itself (the one file a run creates). A walk over it that
  returns 0 and meets at least one regular file whose base name contains the pattern leaves
  the archive \<^verbatim>\<open>storageDir/a1.tar\<close> with an empty payload, whatever the matched files
  contain. The instance is the tree of the specification's example: \<^verbatim>\<open>a.log\<close> and \<^verbatim>\<open>b.log\<close>
  match, \<^verbatim>\<open>b.log\<close> holds one byte, and the archive holds none.
\<close>

theorem archive_payload_is_empty:
  assumes reg: "\<forall>e\<in>set es. typeflag e = FTW_F \<longrightarrow>
        length (fpath e) + 2 \<le> PATH_MAX
        \<and> (file_at (fs st) (path_of (fpath e)) \<noteq> None
           \<or> path_of (fpath e) = path_of (snprintf_path (storageDir st) ''a1.tar''))"
    and walked: "fst (visit_all search_and_create_tar es st) = 0"
    and some: "\<exists>e\<in>set es. typeflag e = FTW_F
                 \<and> (\<exists>u v. drop (base e) (fpath e) = u @ extension st @ v)"
  shows "file_at (fs (snd (visit_all search_and_create_tar es st)))
           (path_of (snprintf_path (storageDir st) ''a1.tar'')) = Some []"
proof -
  from reg have reg': "\<forall>e\<in>set es. typeflag e = FTW_F \<longrightarrow> regular st e"
    unfolding regular_def by blast
  from some have "\<exists>e\<in>set es. match_ext st e"
    unfolding match_ext_def strstr_Some_iff by blast
  with visit_all_archive [OF reg' walked] show ?thesis
    by simp
qed

theorem archive_payload_is_empty_witness:
  "file_at (fs (snd (visit_all search_and_create_tar (entries_of ''r'' logs_dir)
       ((init_state logs_tree 100)\<lparr>rootDir := ''r'', storageDir := ''s'', extension := ''.log''\<rparr>))))
     (path_of (snprintf_path ''s'' ''a1.tar'')) = Some []
   \<and> stdout (snd (main [''prog'', ''r'', ''s'', ''.log''] (init_state logs_tree 100)))
       = [''r/a.log'', ''r/b.log'']
   \<and> file_at (fs (snd (main [''prog'', ''r'', ''s'', ''.log''] (init_state logs_tree 100))))
       [''r'', ''b.log''] = Some ''B''
   \<and> file_at (fs (snd (main [''prog'', ''r'', ''s'', ''.log''] (init_state logs_tree 100))))
       [''s'', ''a1.tar''] = Some []"
proof -
  let ?st = "(init_state logs_tree 100)\<lparr>rootDir := ''r'', storageDir := ''s'', extension := ''.log''\<rparr>"
  have "\<forall>e\<in>set (entries_of ''r'' logs_dir). typeflag e = FTW_F \<longrightarrow> regular ?st e"
    by code_simp
  then have 1: "\<forall>e\<in>set (entries_of ''r'' logs_dir). typeflag e = FTW_F \<longrightarrow>
        length (fpath e) + 2 \<le> PATH_MAX
        \<and> (file_at (fs ?st) (path_of (fpath e)) \<noteq> None
           \<or> path_of (fpath e) = path_of (snprintf_path (storageDir ?st) ''a1.tar''))"
    unfolding regular_def .
  have 2: "fst (visit_all search_and_create_tar (entries_of ''r'' logs_dir) ?st) = 0"
    by code_simp
  have "\<exists>e\<in>set (entries_of ''r'' logs_dir). typeflag e = FTW_F
           \<and> strstr (drop (base e) (fpath e)) (extension ?st) \<noteq> None"
    by code_simp
  then have 3: "\<exists>e\<in>set (entries_of ''r'' logs_dir). typeflag e = FTW_F
                 \<and> (\<exists>u v. drop (base e) (fpath e) = u @ extension ?st @ v)"
    by (simp only: strstr_Some_iff)
  have 4: "storageDir ?st = ''s''"
    by simp
  have "stdout (snd (main [''prog'', ''r'', ''s'', ''.log''] (init_state logs_tree 100)))
       = [''r/a.log'', ''r/b.log'']"
    by code_simp
  moreover have "file_at (fs (snd (main [''prog'', ''r'', ''s'', ''.log''] (init_state logs_tree 100))))
       [''r'', ''b.log''] = Some ''B''"
    by code_simp
  moreover have "file_at (fs (snd (main [''prog'', ''r'', ''s'', ''.log''] (init_state logs_tree 100))))
       [''s'', ''a1.tar''] = Some []"
    by code_simp
  ultimately show ?thesis
    using archive_payload_is_empty [OF 1 2 3] unfolding 4 by blast
qed

subsection \<open>C2: the exit status when the storage directory is missing\<close>

text \<open>
  C2 says that a locate+transfer run that finds the target while the storage directory
  does not exist reports the condition, changes nothing and exits with status 1. The
  visitor does return 1 ``to indicate failure'' (line 99), and \<^verbatim>\<open>nftw\<close> hands that value to
  \<^verbatim>\<open>main\<close>; but \<^verbatim>\<open>main\<close> tests the result against \<open>-1\<close> only (line 309) and falls through to
  \<^verbatim>\<open>return 0\<close>. The archive mode, for the same condition and the same message, returns 1
  (lines 331-334).

  C2, as the code has it: when the root is a directory, the flag is \<^verbatim>\<open>-cp\<close> or \<^verbatim>\<open>-mv\<close>, the
  storage directory does not exist and the walk meets a regular file with the target name,
  the run prints the invalid-storage message, writes nothing to the standard error, leaves
  the file system as it was, and exits with status 0.
\<close>

theorem transfer_invalid_storage_exit_status:
  assumes root: "resolve (fs st) root = Inr n" "is_dir n"
    and op: "op = ''-cp'' \<or> op = ''-mv''"
    and nostore: "\<not> directory_exists st storage"
    and split: "entries_of root n = pre @ e # rest"
    and pre: "\<forall>x\<in>set pre. \<not> (typeflag x = FTW_F \<and> drop (base x) (fpath x) = name)"
    and hit: "typeflag e = FTW_F" "drop (base e) (fpath e) = name"
  shows "fst (main [prog, root, storage, op, name] st) = 0
       \<and> stdout (snd (main [prog, root, storage, op, name] st))
           = stdout st @ [''Search Successful: Invalid storageDir'']
       \<and> stderr (snd (main [prog, root, storage, op, name] st)) = stderr st
       \<and> fs (snd (main [prog, root, storage, op, name] st)) = fs st"
  unfolding main_transfer_invalid_storage [OF assms] by (simp add: printf_def)

theorem transfer_invalid_storage_exit_status_witness:
  "\<not> directory_exists (init_state logs_tree 100) ''nos''
   \<and> fst (main [''prog'', ''r'', ''nos'', ''-cp'', ''a.log''] (init_state logs_tree 100)) = 0
   \<and> stdout (snd (main [''prog'', ''r'', ''nos'', ''-cp'', ''a.log''] (init_state logs_tree 100)))
       = stdout (init_state logs_tree 100) @ [''Search Successful: Invalid storageDir'']
   \<and> stderr (snd (main [''prog'', ''r'', ''nos'', ''-cp'', ''a.log''] (init_state logs_tree 100)))
       = stderr (init_state logs_tree 100)
   \<and> fs (snd (main [''prog'', ''r'', ''nos'', ''-cp'', ''a.log''] (init_state logs_tree 100)))
       = fs (init_state logs_tree 100)"
proof -
  have nos: "\<not> directory_exists (init_state logs_tree 100) ''nos''"
    by code_simp
  have d: "is_dir logs_dir"
    by (simp add: is_dir_def logs_dir_def)
  from nos transfer_invalid_storage_exit_status
    [OF resolve_logs_root d _ nos entries_of_logs_root_split,
      of "''-cp''" "''a.log''" "''prog''"]
  show ?thesis
    by simp
qed

subsection \<open>C3: how often a match is recorded and transferred\<close>




subsection \<open>C4: the walk after a match without a storage directory\<close>

text \<open>
  C4 says that a match that finds no storage directory ends the processing of that entry
  only, and that the entries after it are still visited. The visitor returns 1 there (line
  99), and a visitor's non-zero result ends \<^verbatim>\<open>nftw\<close>. In the example tree \<^verbatim>\<open>r/b.log\<close> comes
  after the match \<^verbatim>\<open>r/a.log\<close> and is never visited.
\<close>

theorem walk_continues_counterexample:
  "''r/b.log'' \<in> set (map fpath (entries_of ''r'' logs_dir))
   \<and> ''r/b.log'' \<notin> set (visits (trace (snd
         (main [''prog'', ''r'', ''nos'', ''-cp'', ''a.log''] (init_state logs_tree 100)))))"
  by code_simp

text \<open>
  C4, amended: in locate+transfer mode, when a matched entry finds no storage directory,
  the walk ends with that entry: the visitor has been called on the entries before it and
  on the entry itself, and on no entry after it.
\<close>

theorem walk_stops_at_invalid_storage:
  assumes root: "resolve (fs st) root = Inr n" "is_dir n"
    and op: "op = ''-cp'' \<or> op = ''-mv''"
    and nostore: "\<not> directory_exists st storage"
    and split: "entries_of root n = pre @ e # rest"
    and pre: "\<forall>x\<in>set pre. \<not> (typeflag x = FTW_F \<and> drop (base x) (fpath x) = name)"
    and hit: "typeflag e = FTW_F" "drop (base e) (fpath e) = name"
  shows "visits (trace (snd (main [prog, root, storage, op, name] st)))
         = visits (trace st) @ map fpath pre @ [fpath e]"
  unfolding main_transfer_invalid_storage [OF assms]
  by (simp add: printf_def visits_append visits_map_Visit)

theorem walk_stops_at_invalid_storage_witness:
  "visits (trace (snd (main [''prog'', ''r'', ''nos'', ''-cp'', ''a.log''] (init_state logs_tree 100))))
   = [''r'', ''r/a.log'']"
proof -
  have nos: "\<not> directory_exists (init_state logs_tree 100) ''nos''"
    by code_simp
  have d: "is_dir logs_dir"
    by (simp add: is_dir_def logs_dir_def)
  have t: "visits (trace (init_state logs_tree 100)) = []"
    by (simp add: init_state_def)
  from walk_stops_at_invalid_storage
    [OF resolve_logs_root d _ nos entries_of_logs_root_split,
      of "''-cp''" "''a.log''" "''prog''"]
  show ?thesis
    unfolding t by simp
qed

subsection \<open>C5: when the storage directory is checked\<close>

text \<open>
  C5 says that both modes with a storage directory verify it before the walk and start no
  walk without it. The locate+transfer branch of \<^verbatim>\<open>main\<close> (lines 287-317) checks the root
  and the flag only; the storage directory is tested by the visitor, on a match (line 97).
  With a storage directory that does not exist and a target that is nowhere, the whole tree
  is walked.
\<close>

theorem storage_checked_first_counterexample:
  "\<not> directory_exists (init_state logs_tree 100) ''nos''
   \<and> visits (trace (snd (main [''prog'', ''r'', ''nos'', ''-cp'', ''zz''] (init_state logs_tree 100))))
       = [''r'', ''r/a.log'', ''r/b.log'', ''r/c.txt'']"
  by code_simp

text \<open>
  C5, amended: in archive mode the storage directory is verified before the walk, and when
  it is not a directory the run exits with status 1 without a single call of the visitor.
  In locate+transfer mode nothing about the storage directory is verified before the walk:
  whenever the root is a directory and the flag is valid the walk starts, with the root as
  its first entry.
\<close>

theorem storage_checked_before_walk_in_archive_mode_only:
  "(\<not> directory_exists st storage \<longrightarrow>
       fst (main [prog, root, storage, ext] st) = 1
     \<and> visits (trace (snd (main [prog, root, storage, ext] st))) = visits (trace st))
   \<and> (directory_exists st root \<and> (op = ''-cp'' \<or> op = ''-mv'') \<longrightarrow>
       (\<exists>rest. visits (trace (snd (main [prog, root, storage, op, name] st)))
                = visits (trace st) @ strip_slashes root # rest))"
proof (intro conjI impI)
  assume "\<not> directory_exists st storage"
  then show "fst (main [prog, root, storage, ext] st) = 1"
    by (simp add: Let_def directory_exists_def)
  assume "\<not> directory_exists st storage"
  then show "visits (trace (snd (main [prog, root, storage, ext] st))) = visits (trace st)"
    by (simp add: Let_def directory_exists_def eprintf_def printf_def)
next
  assume a: "directory_exists st root \<and> (op = ''-cp'' \<or> op = ''-mv'')"
  let ?st = "st\<lparr>rootDir := root, storageDir := storage, operation := Some op,
                  enteredFileName := name\<rparr>"
  from a obtain n where n: "resolve (fs st) root = Inr n" "is_dir n"
    by (cases "resolve (fs st) root") (auto simp: directory_exists_def)
  from entries_of_dir [OF n(2), of root] obtain b rest where
    es: "entries_of root n = \<lparr>fpath = strip_slashes root, typeflag = FTW_D, base = b, level = 0\<rparr> # rest"
    by blast
  from visit_all_search_and_process_trace_grows [of "entries_of root n" ?st] es obtain tl
    where tl: "trace (snd (visit_all search_and_process (entries_of root n) ?st))
        = trace st @ Visit (strip_slashes root) # tl"
    by auto
  obtain r st' where v: "visit_all search_and_process (entries_of root n) ?st = (r, st')"
    by (cases "visit_all search_and_process (entries_of root n) ?st")
  with tl have "trace st' = trace st @ Visit (strip_slashes root) # tl" by simp
  with a n v have "visits (trace (snd (main [prog, root, storage, op, name] st)))
      = visits (trace st) @ strip_slashes root # visits tl"
    by (auto simp: locate_def nftw_def directory_exists_def perror_def printf_def visits_append)
  then show "\<exists>rest. visits (trace (snd (main [prog, root, storage, op, name] st)))
                = visits (trace st) @ strip_slashes root # rest" by blast
qed

theorem storage_checked_before_walk_in_archive_mode_only_witness:
  "fst (main [''prog'', ''r'', ''nos'', ''.log''] (init_state logs_tree 100)) = 1
   \<and> visits (trace (snd (main [''prog'', ''r'', ''nos'', ''.log''] (init_state logs_tree 100))))
       = visits (trace (init_state logs_tree 100))
   \<and> (\<exists>rest. visits (trace (snd
          (main [''prog'', ''r'', ''nos'', ''-cp'', ''zz''] (init_state logs_tree 100))))
        = visits (trace (init_state logs_tree 100)) @ strip_slashes ''r'' # rest)"
proof -
  have 1: "\<not> directory_exists (init_state logs_tree 100) ''nos''"
    by code_simp
  have 2: "directory_exists (init_state logs_tree 100) ''r''"
    by code_simp
  from storage_checked_before_walk_in_archive_mode_only
    [of "init_state logs_tree 100" "''nos''" "''prog''" "''r''" "''.log''" "''-cp''" "''zz''"] 1 2
  show ?thesis
    by blast
qed

subsection \<open>C6: what a copy leaves\<close>




subsection \<open>C7: what a move leaves\<close>




subsection \<open>C8: what matches the extension pattern\<close>

text \<open>
  C8. In archive mode a regular file matches the extension pattern if and only if its base
  name contains the pattern as a substring, anywhere in the name. A match is what the
  visitor does first with a matching entry: it prints the entry's path. The instance below
  the theorem is the file \<^verbatim>\<open>readme.logfile\<close> with the pattern \<^verbatim>\<open>.log\<close>.
\<close>

theorem extension_match_is_substring:
  assumes "typeflag e = FTW_F"
  shows "(stdout (snd (search_and_create_tar e st)) = stdout st @ [fpath e])
       = (\<exists>u v. drop (base e) (fpath e) = u @ extension st @ v)"
proof (cases "strstr (drop (base e) (fpath e)) (extension st) = None")
  case True
  then have "search_and_create_tar e st = (0, st)"
    by (simp add: search_and_create_tar_def)
  with True show ?thesis
    using strstr_Some_iff [of "drop (base e) (fpath e)" "extension st"] by simp
next
  case False
  with assms search_and_create_tar_match_stdout [of e st] show ?thesis
    using strstr_Some_iff [of "drop (base e) (fpath e)" "extension st"] by simp
qed

theorem extension_match_is_substring_witness:
  "stdout (snd (search_and_create_tar
      \<lparr>fpath = ''r/readme.logfile'', typeflag = FTW_F, base = 2, level = 1\<rparr>
      ((init_state (Dir [(''r'', Dir [(''readme.logfile'', File ''x'')]), (''s'', Dir [])]) 100)
         \<lparr>storageDir := ''s'', extension := ''.log''\<rparr>)))
   = [''r/readme.logfile'']"
proof -
  define e where "e = \<lparr>fpath = ''r/readme.logfile'', typeflag = FTW_F, base = 2, level = 1\<rparr>"
  define st where "st = (init_state (Dir [(''r'', Dir [(''readme.logfile'', File ''x'')]), (''s'', Dir [])]) 100)
         \<lparr>storageDir := ''s'', extension := ''.log''\<rparr>"
  have "drop (base e) (fpath e) = ''readme'' @ extension st @ ''file''"
    by (simp add: e_def st_def)
  then have ex: "\<exists>u v. drop (base e) (fpath e) = u @ extension st @ v" by blast
  have "typeflag e = FTW_F" by (simp add: e_def)
  from extension_match_is_substring [OF this, of st] ex
  have "stdout (snd (search_and_create_tar e st)) = stdout st @ [fpath e]" by blast
  moreover have "stdout st = []" "fpath e = ''r/readme.logfile''"
    by (simp_all add: st_def e_def init_state_def)
  ultimately show ?thesis unfolding e_def st_def by simp
qed

subsection \<open>C9: a target that is nowhere\<close>

subsection \<open>C9: a target that is nowhere\<close>



subsection \<open>C10: an archive run without a match\<close>

subsection \<open>C10: an archive run without a match\<close>

text \<open>
  C10. In archive mode, when no regular file below the root has a base name that contains
  the pattern, the file system after the run is the one before it: the archive is neither
  created nor emptied nor written, and \<^verbatim>\<open>gzopen\<close> is never called.
\<close>

theorem archive_without_match_leaves_fs:
  assumes root: "resolve (fs st) root = Inr n"
    and absent: "\<forall>e\<in>set (entries_of root n).
        typeflag e = FTW_F \<longrightarrow> \<not> (\<exists>u v. drop (base e) (fpath e) = u @ ext @ v)"
  shows "fs (snd (main [prog, root, storage, ext] st)) = fs st
       \<and> gzopens (trace (snd (main [prog, root, storage, ext] st))) = gzopens (trace st)"
proof -
  let ?st = "st\<lparr>rootDir := root, storageDir := storage, extension := ext\<rparr>"
  from absent have "\<forall>e\<in>set (entries_of root n).
      \<not> (typeflag e = FTW_F \<and> strstr (drop (base e) (fpath e)) (extension ?st) \<noteq> None)"
    by (auto simp: strstr_None_iff)
  from visit_all_search_and_create_tar_no_match [OF this] root show ?thesis
    by (simp add: nftw_def eprintf_def printf_def Let_def gzopens_append gzopens_map_Visit)
qed

theorem archive_without_match_leaves_fs_witness:
  "fs (snd (main [''prog'', ''r'', ''s'', ''.zip''] (init_state logs_tree 100)))
     = fs (init_state logs_tree 100)
   \<and> gzopens (trace (snd (main [''prog'', ''r'', ''s'', ''.zip''] (init_state logs_tree 100))))
     = gzopens (trace (init_state logs_tree 100))"
proof (rule archive_without_match_leaves_fs [of _ _ logs_dir])
  show "resolve (fs (init_state logs_tree 100)) ''r'' = Inr logs_dir"
    by (rule resolve_logs_root)
  have "\<forall>e\<in>set (entries_of ''r'' logs_dir).
          typeflag e = FTW_F \<longrightarrow> strstr (drop (base e) (fpath e)) ''.zip'' = None"
    by (simp add: entries_of_logs_root)
  then show "\<forall>e\<in>set (entries_of ''r'' logs_dir).
          typeflag e = FTW_F \<longrightarrow> \<not> (\<exists>u v. drop (base e) (fpath e) = u @ ''.zip'' @ v)"
    by (simp add: strstr_None_iff)
qed

end
